theory Spec2Isabelle
  imports Main "HOL-Library.Sublist"
begin

section \<open>Data model\<close>

text \<open>
  The repository holds the event bus in two revisions with the same structure: the classes
  \<^verbatim>\<open>NEventSystem::TEventSystem\<close> and \<^verbatim>\<open>NEventSystem::NInternal::TDispatcher\<close>, and their
  predecessors \<^verbatim>\<open>event_system::EventSystem\<close> and \<^verbatim>\<open>event_system::internal::Dispatcher\<close>.
  The bus classes differ in naming only. The development embeds the \<^verbatim>\<open>NEventSystem\<close>
  revision, the one with the compare-and-set claim of one-shot slots and the cleanup on
  the exceptional path.

  \<^verbatim>\<open>THandlerId\<close> is \<^verbatim>\<open>std::size_t\<close>: a natural number below \<open>2 ^ 64\<close>, with the
  wrap-around of \<^verbatim>\<open>fetch_add\<close> written out where the counter is incremented.
  A \<^verbatim>\<open>std::type_index\<close> and the address of a bus object are opaque tags.
\<close>

type_synonym THandlerId = nat
type_synonym type_index = nat
type_synonym bus_id = nat
type_synonym slot_ref = nat

text \<open>The payload of an event, and the variables a callback captures by reference.\<close>

type_synonym event = int
type_synonym memory = "nat \<Rightarrow> int"

datatype EPriority = Low | Normal | High

fun static_cast_int :: "EPriority \<Rightarrow> int" where
  "static_cast_int Low = 0"
| "static_cast_int Normal = 1"
| "static_cast_int High = 2"

datatype outcome = Returned | Thrown

text \<open>
  A callback is arbitrary client code. Its interaction with the bus is what matters, so
  client code is a tree of bus calls: each node is one call, with the code that follows
  it (which may depend on the value the call returns). \<open>Local\<close> reads and writes the
  captured variables, \<open>Throw\<close> raises an exception, \<open>Catch\<close> is a
  \<^verbatim>\<open>try { ... } catch (...) { }\<close> block followed by code that sees how the block ended.
\<close>

datatype prog =
    Done
  | Throw
  | Subscribe bus_id type_index EPriority "event \<Rightarrow> prog" "THandlerId \<Rightarrow> prog"
  | SubscribeOnce bus_id type_index EPriority "event \<Rightarrow> prog" "THandlerId \<Rightarrow> prog"
  | Unsubscribe bus_id THandlerId prog
  | Dispatch bus_id type_index event prog
  | GetHandlerCount bus_id type_index "nat \<Rightarrow> prog"
  | Catch prog "outcome \<Rightarrow> prog"
  | Local "memory \<Rightarrow> memory \<times> prog"

record TSlot =
  SlotId :: THandlerId
  Priority :: EPriority
  CallbackV :: "event \<Rightarrow> prog"
  IsOneShot :: bool
  Active :: bool

text \<open>
  \<^verbatim>\<open>Slots\<close> is a vector of shared pointers, and a delivery iterates over a copy of that
  vector while the slots themselves stay shared: the \<^verbatim>\<open>Active\<close> flag a snapshot reads is
  the one \<^verbatim>\<open>Remove\<close> writes. The slots of a dispatcher therefore live in a \<open>pool\<close>, a
  shared pointer is an index into it, \<^verbatim>\<open>make_shared\<close> appends to it, and nothing is ever
  freed (a slot no vector refers to is unreachable). Slot pointers never leave their
  dispatcher, so each dispatcher has a pool of its own.
\<close>

record TDispatcher =
  Slots :: "slot_ref list"
  pool :: "TSlot list"

record TEventSystem =
  Dispatchers :: "type_index \<rightharpoonup> TDispatcher"
  HandlerTypes :: "THandlerId \<rightharpoonup> type_index"
  NextId :: THandlerId

text \<open>
  A dispatch frame names the bus, the event type and the event. The frame's dispatcher
  pointer is the dispatcher the bus holds for that type: \<^verbatim>\<open>Dispatchers\<close> only grows, and
  \<^verbatim>\<open>Dispatch\<close> builds the frame from \<^verbatim>\<open>GetDispatcher\<close> of the same bus and type.
\<close>

record TDispatchFrame =
  FrameSystem :: bus_id
  EventTypeIndex :: type_index
  FrameEvent :: event

text \<open>
  The observation log is not part of the program: it records what the program did, so
  that properties of whole runs can be stated. \<open>Call\<close> is one invocation of a slot's
  callback (by the loop of \<^verbatim>\<open>Dispatch\<close> or by \<^verbatim>\<open>InvokeSingle\<close>, with the depth of the
  frame stack at that moment), \<open>Removed\<close> the store of \<^verbatim>\<open>false\<close> by \<^verbatim>\<open>Remove\<close>,
  \<open>Issued\<close> an identifier taken from \<^verbatim>\<open>NextId\<close>, \<open>Unsub\<close> a call of \<^verbatim>\<open>Unsubscribe\<close>.
\<close>

datatype via = ByDispatch | ByInvokeSingle

datatype obs =
    Call via nat bus_id type_index slot_ref event
  | Removed bus_id type_index slot_ref
  | Issued bus_id THandlerId
  | Unsub bus_id THandlerId

record world =
  buses :: "bus_id \<Rightarrow> TEventSystem"
  DispatchStack :: "TDispatchFrame list"
  mem :: memory
  trace :: "obs list"

section \<open>The dispatcher of one event type\<close>

definition deref :: "TDispatcher \<Rightarrow> slot_ref \<Rightarrow> TSlot option" where
  "deref d r = (if r < length (pool d) then Some (pool d ! r) else None)"

definition has_id :: "TDispatcher \<Rightarrow> THandlerId \<Rightarrow> slot_ref \<Rightarrow> bool" where
  "has_id d i r = (case deref d r of None \<Rightarrow> False | Some s \<Rightarrow> SlotId s = i)"

definition is_active :: "TDispatcher \<Rightarrow> slot_ref \<Rightarrow> bool" where
  "is_active d r = (case deref d r of None \<Rightarrow> False | Some s \<Rightarrow> Active s)"

definition store_active :: "slot_ref \<Rightarrow> bool \<Rightarrow> TDispatcher \<Rightarrow> TDispatcher" where
  "store_active r v d = d\<lparr>pool := (pool d)[r := (pool d ! r)\<lparr>Active := v\<rparr>]\<rparr>"

text \<open>
  The comparator of \<^verbatim>\<open>std::stable_sort\<close> is \<open>a.Priority > b.Priority\<close> on the integer
  values: a stable sort by the negated priority.
\<close>

definition priority_key :: "TDispatcher \<Rightarrow> slot_ref \<Rightarrow> int" where
  "priority_key d r = (case deref d r of None \<Rightarrow> 0 | Some s \<Rightarrow> - static_cast_int (Priority s))"

definition CleanupUnlocked :: "TDispatcher \<Rightarrow> TDispatcher" where
  "CleanupUnlocked d = d\<lparr>Slots := filter (is_active d) (Slots d)\<rparr>"

definition TDispatcher_Subscribe ::
  "THandlerId \<Rightarrow> EPriority \<Rightarrow> (event \<Rightarrow> prog) \<Rightarrow> bool \<Rightarrow> TDispatcher \<Rightarrow> TDispatcher" where
  "TDispatcher_Subscribe i p cb one_shot d =
     (let slot = \<lparr>SlotId = i, Priority = p, CallbackV = cb, IsOneShot = one_shot, Active = True\<rparr>;
          r = length (pool d);
          d1 = d\<lparr>pool := pool d @ [slot]\<rparr>
      in d1\<lparr>Slots := sort_key (priority_key d1) (Slots d @ [r])\<rparr>)"

definition TDispatcher_Remove :: "THandlerId \<Rightarrow> TDispatcher \<Rightarrow> bool \<times> TDispatcher" where
  "TDispatcher_Remove i d =
     (case find (has_id d i) (Slots d) of
        None \<Rightarrow> (False, d)
      | Some r \<Rightarrow> (True, CleanupUnlocked (store_active r False d)))"

definition TDispatcher_Count :: "TDispatcher \<Rightarrow> nat" where
  "TDispatcher_Count d = length (filter (is_active d) (Slots d))"

section \<open>The bus\<close>

definition dispatcher_of :: "world \<Rightarrow> bus_id \<Rightarrow> type_index \<Rightarrow> TDispatcher" where
  "dispatcher_of w b E =
     (case Dispatchers (buses w b) E of None \<Rightarrow> \<lparr>Slots = [], pool = []\<rparr> | Some d \<Rightarrow> d)"

definition update_dispatcher ::
  "bus_id \<Rightarrow> type_index \<Rightarrow> (TDispatcher \<Rightarrow> TDispatcher) \<Rightarrow> world \<Rightarrow> world" where
  "update_dispatcher b E f w =
     w\<lparr>buses := (buses w)(b := (buses w b)
        \<lparr>Dispatchers := (Dispatchers (buses w b))(E \<mapsto> f (dispatcher_of w b E))\<rparr>)\<rparr>"

definition observe :: "obs \<Rightarrow> world \<Rightarrow> world" where
  "observe x w = w\<lparr>trace := trace w @ [x]\<rparr>"

definition TEventSystem_GetDispatcher :: "bus_id \<Rightarrow> type_index \<Rightarrow> world \<Rightarrow> world" where
  "TEventSystem_GetDispatcher b E w =
     (case Dispatchers (buses w b) E of
        Some d \<Rightarrow> w
      | None \<Rightarrow> update_dispatcher b E (\<lambda>d. \<lparr>Slots = [], pool = []\<rparr>) w)"

definition fetch_add_NextId :: "bus_id \<Rightarrow> world \<Rightarrow> world" where
  "fetch_add_NextId b w =
     observe (Issued b (NextId (buses w b)))
       (w\<lparr>buses := (buses w)(b := (buses w b)\<lparr>NextId := (NextId (buses w b) + 1) mod 2 ^ 64\<rparr>)\<rparr>)"

text \<open>\<^verbatim>\<open>unordered_map::emplace\<close> keeps an entry that is already there.\<close>

definition emplace_HandlerTypes :: "bus_id \<Rightarrow> THandlerId \<Rightarrow> type_index \<Rightarrow> world \<Rightarrow> world" where
  "emplace_HandlerTypes b i E w =
     (case HandlerTypes (buses w b) i of
        Some E' \<Rightarrow> w
      | None \<Rightarrow> w\<lparr>buses := (buses w)(b := (buses w b)
                  \<lparr>HandlerTypes := (HandlerTypes (buses w b))(i \<mapsto> E)\<rparr>)\<rparr>)"

definition PushFrame :: "TDispatchFrame \<Rightarrow> world \<Rightarrow> world" where
  "PushFrame f w = w\<lparr>DispatchStack := DispatchStack w @ [f]\<rparr>"

definition PopFrame :: "world \<Rightarrow> world" where
  "PopFrame w = w\<lparr>DispatchStack := butlast (DispatchStack w)\<rparr>"

definition TDispatcher_Cleanup :: "bus_id \<Rightarrow> type_index \<Rightarrow> world \<Rightarrow> world" where
  "TDispatcher_Cleanup b E w = update_dispatcher b E CleanupUnlocked w"

text \<open>
  \<^verbatim>\<open>UnsubscribeImpl\<close>: look the type up and erase the entry, look the dispatcher up,
  \<^verbatim>\<open>Remove\<close>. The result of \<^verbatim>\<open>Remove\<close> is dropped.
\<close>

definition TEventSystem_Unsubscribe :: "bus_id \<Rightarrow> THandlerId \<Rightarrow> world \<Rightarrow> world" where
  "TEventSystem_Unsubscribe b i w0 =
     (let w = observe (Unsub b i) w0 in
      case HandlerTypes (buses w b) i of
        None \<Rightarrow> w
      | Some E \<Rightarrow>
          (let w1 = w\<lparr>buses := (buses w)(b := (buses w b)
                      \<lparr>HandlerTypes := (HandlerTypes (buses w b))(i := None)\<rparr>)\<rparr>
           in case Dispatchers (buses w1 b) E of
                None \<Rightarrow> w1
              | Some d \<Rightarrow>
                  (case find (has_id d i) (Slots d) of
                     None \<Rightarrow> w1
                   | Some r \<Rightarrow>
                       observe (Removed b E r)
                         (update_dispatcher b E (\<lambda>d. snd (TDispatcher_Remove i d)) w1))))"

definition TEventSystem_GetHandlerCount :: "bus_id \<Rightarrow> type_index \<Rightarrow> world \<Rightarrow> nat" where
  "TEventSystem_GetHandlerCount b E w =
     (case Dispatchers (buses w b) E of None \<Rightarrow> 0 | Some d \<Rightarrow> TDispatcher_Count d)"

section \<open>Delivery\<close>

text \<open>
  The functions that invoke callbacks take the interpreter of client code as the
  parameter \<open>run\<close>: \<open>run p w\<close> is \<open>None\<close> when the code does not return.
\<close>

type_synonym runner = "prog \<Rightarrow> world \<Rightarrow> (outcome \<times> world) option"

definition invoke ::
  "runner \<Rightarrow> via \<Rightarrow> bus_id \<Rightarrow> type_index \<Rightarrow> slot_ref \<Rightarrow> TSlot \<Rightarrow> event \<Rightarrow> world
     \<Rightarrow> (outcome \<times> world) option" where
  "invoke run v b E r slot ev w =
     run (CallbackV slot ev) (observe (Call v (length (DispatchStack w)) b E r ev) w)"

text \<open>
  The loop of \<^verbatim>\<open>TDispatcher::Dispatch\<close> over the snapshot, with the flag \<^verbatim>\<open>NeedCleanup\<close>.
  A failed compare-and-set and an inactive slot continue with the next slot; an
  exception leaves the loop.
\<close>

fun DispatchLoop ::
  "runner \<Rightarrow> bus_id \<Rightarrow> type_index \<Rightarrow> event \<Rightarrow> slot_ref list \<Rightarrow> bool \<Rightarrow> world
     \<Rightarrow> (outcome \<times> bool \<times> world) option" where
  "DispatchLoop run b E ev [] NeedCleanup w = Some (Returned, NeedCleanup, w)"
| "DispatchLoop run b E ev (r # snapshot) NeedCleanup w =
     (case deref (dispatcher_of w b E) r of
        None \<Rightarrow> DispatchLoop run b E ev snapshot NeedCleanup w
      | Some slot \<Rightarrow>
          if IsOneShot slot then
            if \<not> Active slot then DispatchLoop run b E ev snapshot NeedCleanup w
            else
              (case invoke run ByDispatch b E r slot ev
                      (update_dispatcher b E (store_active r False) w) of
                 None \<Rightarrow> None
               | Some (Thrown, w') \<Rightarrow> Some (Thrown, True, w')
               | Some (Returned, w') \<Rightarrow> DispatchLoop run b E ev snapshot True w')
          else if \<not> Active slot then DispatchLoop run b E ev snapshot NeedCleanup w
          else
            (case invoke run ByDispatch b E r slot ev w of
               None \<Rightarrow> None
             | Some (Thrown, w') \<Rightarrow> Some (Thrown, NeedCleanup, w')
             | Some (Returned, w') \<Rightarrow> DispatchLoop run b E ev snapshot NeedCleanup w'))"

text \<open>
  \<^verbatim>\<open>TDispatcher::Dispatch\<close>: the handler of \<^verbatim>\<open>catch (...)\<close> and the normal exit do the
  same cleanup; the exception is thrown again after it.
\<close>

definition TDispatcher_Dispatch ::
  "runner \<Rightarrow> bus_id \<Rightarrow> type_index \<Rightarrow> event \<Rightarrow> world \<Rightarrow> (outcome \<times> world) option" where
  "TDispatcher_Dispatch run b E ev w =
     (let snapshot = Slots (dispatcher_of w b E) in
      case DispatchLoop run b E ev snapshot False w of
        None \<Rightarrow> None
      | Some (out, NeedCleanup, w') \<Rightarrow>
          Some (out, if NeedCleanup then TDispatcher_Cleanup b E w' else w'))"

definition TDispatcher_InvokeSingle ::
  "runner \<Rightarrow> bus_id \<Rightarrow> type_index \<Rightarrow> THandlerId \<Rightarrow> event \<Rightarrow> world
     \<Rightarrow> (outcome \<times> world) option" where
  "TDispatcher_InvokeSingle run b E i ev w =
     (let d = dispatcher_of w b E in
      case find (has_id d i) (Slots d) of
        None \<Rightarrow> Some (Returned, w)
      | Some r \<Rightarrow>
          (case deref d r of
             None \<Rightarrow> Some (Returned, w)
           | Some slot \<Rightarrow>
               if IsOneShot slot then
                 if \<not> Active slot then Some (Returned, w)
                 else
                   (case invoke run ByInvokeSingle b E r slot ev
                           (update_dispatcher b E (store_active r False) w) of
                      None \<Rightarrow> None
                    | Some (out, w') \<Rightarrow> Some (out, TDispatcher_Cleanup b E w'))
               else if \<not> Active slot then Some (Returned, w)
               else invoke run ByInvokeSingle b E r slot ev w))"

text \<open>
  \<^verbatim>\<open>NotifyCurrentDispatch\<close> walks the frame stack from its top (\<^verbatim>\<open>rbegin\<close>) and stops at
  the first frame of this bus and this event type.
\<close>

definition TEventSystem_NotifyCurrentDispatch ::
  "runner \<Rightarrow> bus_id \<Rightarrow> type_index \<Rightarrow> THandlerId \<Rightarrow> world \<Rightarrow> (outcome \<times> world) option" where
  "TEventSystem_NotifyCurrentDispatch run b E i w =
     (if DispatchStack w = [] then Some (Returned, w)
      else
        case find (\<lambda>f. FrameSystem f = b \<and> EventTypeIndex f = E) (rev (DispatchStack w)) of
          None \<Rightarrow> Some (Returned, w)
        | Some f \<Rightarrow>
            TDispatcher_InvokeSingle run (FrameSystem f) (EventTypeIndex f) i (FrameEvent f) w)"

text \<open>
  The part of \<^verbatim>\<open>SubscribeImpl\<close> before \<^verbatim>\<open>NotifyCurrentDispatch\<close>: take the identifier,
  get or create the dispatcher, add the slot, record the type of the identifier.
\<close>

definition register_handler ::
  "bus_id \<Rightarrow> type_index \<Rightarrow> EPriority \<Rightarrow> (event \<Rightarrow> prog) \<Rightarrow> bool \<Rightarrow> world \<Rightarrow> world" where
  "register_handler b E p cb one_shot w =
     (let i = NextId (buses w b);
          w1 = fetch_add_NextId b w;
          w2 = TEventSystem_GetDispatcher b E w1;
          w3 = update_dispatcher b E (TDispatcher_Subscribe i p cb one_shot) w2
      in emplace_HandlerTypes b i E w3)"

definition TEventSystem_SubscribeImpl ::
  "runner \<Rightarrow> bus_id \<Rightarrow> type_index \<Rightarrow> EPriority \<Rightarrow> (event \<Rightarrow> prog) \<Rightarrow> bool \<Rightarrow> world
     \<Rightarrow> (outcome \<times> THandlerId \<times> world) option" where
  "TEventSystem_SubscribeImpl run b E p cb one_shot w =
     (let i = NextId (buses w b) in
      case TEventSystem_NotifyCurrentDispatch run b E i (register_handler b E p cb one_shot w) of
        None \<Rightarrow> None
      | Some (out, w') \<Rightarrow> Some (out, i, w'))"

text \<open>
  \<^verbatim>\<open>TEventSystem::Dispatch\<close>: the guard pushes the frame and pops it on every way out.
\<close>

definition TEventSystem_Dispatch ::
  "runner \<Rightarrow> bus_id \<Rightarrow> type_index \<Rightarrow> event \<Rightarrow> world \<Rightarrow> (outcome \<times> world) option" where
  "TEventSystem_Dispatch run b E ev w =
     (let w1 = TEventSystem_GetDispatcher b E w;
          w2 = PushFrame \<lparr>FrameSystem = b, EventTypeIndex = E, FrameEvent = ev\<rparr> w1
      in case TDispatcher_Dispatch run b E ev w2 of
           None \<Rightarrow> None
         | Some (out, w3) \<Rightarrow> Some (out, PopFrame w3))"

section \<open>Client code\<close>

text \<open>
  One step of client code, with \<open>run\<close> for the callbacks it sets off and for the code
  that follows. An exception that leaves a bus call leaves the client code too, unless
  a \<open>Catch\<close> block holds it.
\<close>

fun exec_body :: "runner \<Rightarrow> prog \<Rightarrow> world \<Rightarrow> (outcome \<times> world) option" where
  "exec_body run Done w = Some (Returned, w)"
| "exec_body run Throw w = Some (Thrown, w)"
| "exec_body run (Subscribe b E p cb k) w =
     (case TEventSystem_SubscribeImpl run b E p cb False w of
        None \<Rightarrow> None
      | Some (Thrown, i, w') \<Rightarrow> Some (Thrown, w')
      | Some (Returned, i, w') \<Rightarrow> run (k i) w')"
| "exec_body run (SubscribeOnce b E p cb k) w =
     (case TEventSystem_SubscribeImpl run b E p cb True w of
        None \<Rightarrow> None
      | Some (Thrown, i, w') \<Rightarrow> Some (Thrown, w')
      | Some (Returned, i, w') \<Rightarrow> run (k i) w')"
| "exec_body run (Unsubscribe b i k) w = run k (TEventSystem_Unsubscribe b i w)"
| "exec_body run (Dispatch b E ev k) w =
     (case TEventSystem_Dispatch run b E ev w of
        None \<Rightarrow> None
      | Some (Thrown, w') \<Rightarrow> Some (Thrown, w')
      | Some (Returned, w') \<Rightarrow> run k w')"
| "exec_body run (GetHandlerCount b E k) w = run (k (TEventSystem_GetHandlerCount b E w)) w"
| "exec_body run (Catch body k) w =
     (case run body w of
        None \<Rightarrow> None
      | Some (out, w') \<Rightarrow> run (k out) w')"
| "exec_body run (Local f) w = (case f (mem w) of (m, k) \<Rightarrow> run k (w\<lparr>mem := m\<rparr>))"

text \<open>
  The interpreter, with fuel for the depth of nested calls: \<open>None\<close> is a run that needs
  more (a handler that publishes its own event for ever has no result at any fuel).
\<close>

primrec exec :: "nat \<Rightarrow> runner" where
  "exec 0 = (\<lambda>p w. None)"
| "exec (Suc n) = exec_body (exec n)"

definition new_bus :: TEventSystem where
  "new_bus = \<lparr>Dispatchers = Map.empty, HandlerTypes = Map.empty, NextId = 1\<rparr>"

definition init_world :: world where
  "init_world = \<lparr>buses = (\<lambda>b. new_bus), DispatchStack = [], mem = (\<lambda>x. 0), trace = []\<rparr>"


text \<open>
  A dispatcher in the middle of a delivery: the one-shot slot with identifier 1 has been
  claimed (its flag is already \<^verbatim>\<open>false\<close>) and is still in \<^verbatim>\<open>Slots\<close>, since the cleanup
  runs when the delivery ends.
\<close>

definition claimed_dispatcher :: TDispatcher where
  "claimed_dispatcher =
     \<lparr>Slots = [0],
      pool = [\<lparr>SlotId = 1, Priority = Normal, CallbackV = (\<lambda>ev. Done),
               IsOneShot = True, Active = False\<rparr>]\<rparr>"

section \<open>Runs as sequences of state changes\<close>

text \<open>The slot whose flag \<^verbatim>\<open>Unsubscribe\<close> clears, if there is one.\<close>

definition removed_slot :: "world \<Rightarrow> bus_id \<Rightarrow> THandlerId \<Rightarrow> (type_index \<times> slot_ref) option" where
  "removed_slot w b i =
     (case HandlerTypes (buses w b) i of
        None \<Rightarrow> None
      | Some E \<Rightarrow> map_option (Pair E) (find (has_id (dispatcher_of w b E) i) (Slots (dispatcher_of w b E))))"

text \<open>
  Every run is a sequence of the state changes below: the functions of the bus that call
  no client code, and the invocation of a callback, which the loop and \<^verbatim>\<open>InvokeSingle\<close>
  make for an active slot only, clearing the flag first when the slot is one-shot.
\<close>

inductive prim_step :: "world \<Rightarrow> world \<Rightarrow> bool" where
  ps_register: "prim_step w (register_handler b E p cb os w)"
| ps_unsubscribe: "prim_step w (TEventSystem_Unsubscribe b i w)"
| ps_get: "prim_step w (TEventSystem_GetDispatcher b E w)"
| ps_push: "prim_step w (PushFrame f w)"
| ps_pop: "prim_step w (PopFrame w)"
| ps_claim: "deref (dispatcher_of w b E) r = Some slot \<Longrightarrow> IsOneShot slot \<Longrightarrow> Active slot \<Longrightarrow>
     prim_step w (observe (Call v (length (DispatchStack w)) b E r ev)
                   (update_dispatcher b E (store_active r False) w))"
| ps_call: "deref (dispatcher_of w b E) r = Some slot \<Longrightarrow> \<not> IsOneShot slot \<Longrightarrow> Active slot \<Longrightarrow>
     prim_step w (observe (Call v (length (DispatchStack w)) b E r ev) w)"
| ps_cleanup: "prim_step w (TDispatcher_Cleanup b E w)"
| ps_local: "prim_step w (w\<lparr>mem := m\<rparr>)"

definition steps_only :: "runner \<Rightarrow> bool" where
  "steps_only run = (\<forall>p w out w'. run p w = Some (out, w') \<longrightarrow> prim_step\<^sup>*\<^sup>* w w')"

section \<open>Invocations of a slot\<close>

text \<open>
  \<open>calls w b E r\<close> counts the invocations of the callback of slot \<open>r\<close> of the dispatcher
  of bus \<open>b\<close> for type \<open>E\<close>, by any delivery and by \<^verbatim>\<open>InvokeSingle\<close>. The invariant behind
  the one-shot guarantee: a one-shot slot that is still active has never been invoked, and
  one that has been invoked once is inactive.
\<close>

fun is_call :: "bus_id \<Rightarrow> type_index \<Rightarrow> slot_ref \<Rightarrow> obs \<Rightarrow> bool" where
  "is_call b E r (Call v n b' E' r' ev) = (b' = b \<and> E' = E \<and> r' = r)"
| "is_call b E r x = False"

definition calls :: "world \<Rightarrow> bus_id \<Rightarrow> type_index \<Rightarrow> slot_ref \<Rightarrow> nat" where
  "calls w b E r = length (filter (is_call b E r) (trace w))"

definition one_shot_inv :: "world \<Rightarrow> bool" where
  "one_shot_inv w =
     (\<forall>b E r. (0 < calls w b E r \<longrightarrow> r < length (pool (dispatcher_of w b E))) \<and>
              (\<forall>slot. deref (dispatcher_of w b E) r = Some slot \<longrightarrow> IsOneShot slot \<longrightarrow>
                   calls w b E r + (if Active slot then 1 else 0) \<le> 1))"

text \<open>A one-shot handler that publishes its own event type again from its callback.\<close>

definition republishing_one_shot :: prog where
  "republishing_one_shot =
     SubscribeOnce 0 7 Normal (\<lambda>ev. Dispatch 0 7 (ev + 1) Done)
       (\<lambda>i. Dispatch 0 7 5 (Dispatch 0 7 6 Done))"

section \<open>Handler identifiers\<close>

text \<open>
  The identifiers a bus has taken from its counter, in the order of the calls of
  \<^verbatim>\<open>SubscribeImpl\<close>; each is the value that call returns. The invariant: they are
  \<open>1, 2, 3, \<dots>\<close> modulo \<open>2 ^ 64\<close>, and \<^verbatim>\<open>NextId\<close> is the next one.
\<close>

fun issued_id :: "bus_id \<Rightarrow> obs \<Rightarrow> THandlerId list" where
  "issued_id b (Issued b' i) = (if b' = b then [i] else [])"
| "issued_id b x = []"

definition issued_by :: "bus_id \<Rightarrow> world \<Rightarrow> THandlerId list" where
  "issued_by b w = concat (map (issued_id b) (trace w))"

definition id_inv :: "world \<Rightarrow> bool" where
  "id_inv w =
     (\<forall>b. issued_by b w = map (\<lambda>k. k mod 2 ^ 64) [1..<Suc (length (issued_by b w))] \<and>
          NextId (buses w b) = Suc (length (issued_by b w)) mod 2 ^ 64)"

text \<open>Two buses with one handler each; one bus with two handlers.\<close>

definition two_buses :: prog where
  "two_buses =
     Subscribe 0 7 Normal (\<lambda>ev. Done) (\<lambda>i. Subscribe 1 7 Normal (\<lambda>ev. Done) (\<lambda>j. Done))"

text \<open>A world in which every bus has handed out all identifiers but the last one.\<close>

definition last_id_world :: world where
  "last_id_world = init_world\<lparr>buses := (\<lambda>b. new_bus\<lparr>NextId := 2 ^ 64 - 1\<rparr>)\<rparr>"

definition two_handlers :: prog where
  "two_handlers =
     Subscribe 0 7 Normal (\<lambda>ev. Done) (\<lambda>i. Subscribe 0 7 Normal (\<lambda>ev. Done) (\<lambda>j. Done))"

section \<open>Removal and the identifier map\<close>

text \<open>
  A log is in order when no invocation of a slot follows the removal of that slot. The
  invariant adds that a removed slot is inactive.
\<close>

fun never_called_after_removed :: "obs list \<Rightarrow> bool" where
  "never_called_after_removed [] = True"
| "never_called_after_removed (Removed b E r # t) =
     ((\<forall>x \<in> set t. \<not> is_call b E r x) \<and> never_called_after_removed t)"
| "never_called_after_removed (x # t) = never_called_after_removed t"

definition removed_inv :: "world \<Rightarrow> bool" where
  "removed_inv w =
     (never_called_after_removed (trace w) \<and>
      (\<forall>b E r. Removed b E r \<in> set (trace w) \<longrightarrow>
         r < length (pool (dispatcher_of w b E)) \<and> \<not> is_active (dispatcher_of w b E) r))"

text \<open>
  Three handlers of one event type: the first (High) unsubscribes the third (Low) and then
  itself and goes on to write a variable; the second (Normal) only writes a variable.
  The event is published twice.
\<close>

definition unsubscribing_handler :: prog where
  "unsubscribing_handler =
     Subscribe 0 7 High
       (\<lambda>ev. Unsubscribe 0 3 (Unsubscribe 0 1 (Local (\<lambda>m. (m(0 := m 0 + 1), Done)))))
       (\<lambda>i. Subscribe 0 7 Normal (\<lambda>ev. Local (\<lambda>m. (m(1 := m 1 + 1), Done)))
       (\<lambda>j. Subscribe 0 7 Low (\<lambda>ev. Local (\<lambda>m. (m(2 := m 2 + 1), Done)))
       (\<lambda>k. Dispatch 0 7 0 (Dispatch 0 7 1 Done))))"

text \<open>
  \<open>keeps_type b i E t0 u\<close>: since the log was \<open>t0\<close>, either \<^verbatim>\<open>Unsubscribe\<close> has been called
  on bus \<open>b\<close> for identifier \<open>i\<close>, or \<^verbatim>\<open>HandlerTypes\<close> still maps \<open>i\<close> to \<open>E\<close>.
\<close>

definition keeps_type :: "bus_id \<Rightarrow> THandlerId \<Rightarrow> type_index \<Rightarrow> obs list \<Rightarrow> world \<Rightarrow> bool" where
  "keeps_type b i E t0 u =
     (\<exists>t. trace u = t0 @ t \<and> (Unsub b i \<in> set t \<or> HandlerTypes (buses u b) i = Some E))"

text \<open>The initial world after \<^verbatim>\<open>SubscribeOnce\<close> of a handler that does nothing.\<close>

definition one_shot_registered :: world where
  "one_shot_registered = register_handler 0 7 Normal (\<lambda>ev. Done) True init_world"

section \<open>Scoped connections\<close>

text \<open>
  \<^verbatim>\<open>TScopedConnection\<close> holds a pointer to the bus, null when it holds no handler, and
  the identifier. \<^verbatim>\<open>Disconnect\<close> unsubscribes when the pointer is not null and the
  identifier is not 0, and resets both; the destructor is \<^verbatim>\<open>Disconnect\<close>.
\<close>

record TScopedConnection =
  System :: "bus_id option"
  ConnId :: THandlerId

definition no_handler :: TScopedConnection where
  "no_handler = \<lparr>System = None, ConnId = 0\<rparr>"

definition TScopedConnection_new :: "bus_id \<Rightarrow> THandlerId \<Rightarrow> TScopedConnection" where
  "TScopedConnection_new b i = \<lparr>System = Some b, ConnId = i\<rparr>"

definition Disconnect :: "TScopedConnection \<Rightarrow> world \<Rightarrow> TScopedConnection \<times> world" where
  "Disconnect c w =
     (case System c of
        None \<Rightarrow> (c, w)
      | Some b \<Rightarrow>
          if ConnId c \<noteq> 0 then (no_handler, TEventSystem_Unsubscribe b (ConnId c) w)
          else (c, w))"

definition destroy :: "TScopedConnection \<Rightarrow> world \<Rightarrow> world" where
  "destroy c w = snd (Disconnect c w)"

text \<open>
  Move assignment compares the addresses of the two objects (\<^verbatim>\<open>this != &other\<close>), so
  the connection objects live in a store, indexed by address.
\<close>

type_synonym connections = "nat \<Rightarrow> TScopedConnection"

definition move_assign :: "nat \<Rightarrow> nat \<Rightarrow> connections \<times> world \<Rightarrow> connections \<times> world" where
  "move_assign this other cw =
     (case cw of (cs, w) \<Rightarrow>
        if this \<noteq> other then
          (case Disconnect (cs this) w of (c1, w1) \<Rightarrow>
             (let cs1 = cs(this := c1);
                  cs2 = cs1(this := \<lparr>System = System (cs1 other), ConnId = ConnId (cs1 other)\<rparr>);
                  cs3 = cs2(other := \<lparr>System = None, ConnId = 0\<rparr>)
              in (cs3, w1)))
        else (cs, w))"

definition move_construct :: "nat \<Rightarrow> nat \<Rightarrow> connections \<Rightarrow> connections" where
  "move_construct this other cs =
     (let cs1 = cs(this := \<lparr>System = System (cs other), ConnId = ConnId (cs other)\<rparr>)
      in cs1(other := \<lparr>System = None, ConnId = 0\<rparr>))"

text \<open>
  Every connection the class can build holds a bus whenever its identifier is not 0: the
  constructor takes the bus by reference.
\<close>

definition valid_connection :: "TScopedConnection \<Rightarrow> bool" where
  "valid_connection c = (System c = None \<longrightarrow> ConnId c = 0)"

text \<open>
  The conditions of the round trip: every entry of \<^verbatim>\<open>Slots\<close> refers to a slot of the pool;
  the identifier the bus will issue next is in use neither in \<^verbatim>\<open>HandlerTypes\<close> nor in the
  dispatcher; no delivery of the event type on this bus is in flight on the thread.
\<close>

definition refs_valid :: "TDispatcher \<Rightarrow> bool" where
  "refs_valid d = (\<forall>r \<in> set (Slots d). r < length (pool d))"

definition id_unused :: "world \<Rightarrow> bus_id \<Rightarrow> type_index \<Rightarrow> bool" where
  "id_unused w b E =
     (HandlerTypes (buses w b) (NextId (buses w b)) = None \<and>
      (\<forall>r \<in> set (Slots (dispatcher_of w b E)).
          \<not> has_id (dispatcher_of w b E) (NextId (buses w b)) r))"

definition no_frame :: "world \<Rightarrow> bus_id \<Rightarrow> type_index \<Rightarrow> bool" where
  "no_frame w b E =
     (find (\<lambda>f. FrameSystem f = b \<and> EventTypeIndex f = E) (rev (DispatchStack w)) = None)"


text \<open>
  The invariant that gives these conditions in every reachable world: the identifiers in
  \<^verbatim>\<open>HandlerTypes\<close> and in the slots of a bus are identifiers that bus has issued.
\<close>

definition wf_inv :: "world \<Rightarrow> bool" where
  "wf_inv w =
     (\<forall>b. (\<forall>i. HandlerTypes (buses w b) i \<noteq> None \<longrightarrow> i \<in> set (issued_by b w)) \<and>
          (\<forall>E. refs_valid (dispatcher_of w b E) \<and>
               (\<forall>r slot. deref (dispatcher_of w b E) r = Some slot \<longrightarrow>
                    SlotId slot \<in> set (issued_by b w))))"

text \<open>Two connections holding the handlers 1 and 2 of bus 0, and that bus.\<close>

definition two_connections :: connections where
  "two_connections =
     (\<lambda>x. no_handler)(0 := TScopedConnection_new 0 1, 1 := TScopedConnection_new 0 2)"

definition two_registered :: world where
  "two_registered =
     register_handler 0 7 Normal (\<lambda>ev. Done) False
       (register_handler 0 7 Normal (\<lambda>ev. Done) False init_world)"


definition one_registered :: world where
  "one_registered = register_handler 0 7 Normal (\<lambda>ev. Done) False init_world"

text \<open>
  A handler that, during a delivery, reads the handler count, subscribes a handler with
  the callback \<open>cb\<close>, unsubscribes it by the identifier returned, reads the handler count
  again, and stores the two counts in the cells 0 and 1; registered and published to once.
\<close>

definition round_trip_in_flight :: "(event \<Rightarrow> prog) \<Rightarrow> prog" where
  "round_trip_in_flight cb =
     Subscribe 0 7 Normal
       (\<lambda>ev. GetHandlerCount 0 7
          (\<lambda>before. Subscribe 0 7 Normal cb
             (\<lambda>i. Unsubscribe 0 i
                (GetHandlerCount 0 7
                   (\<lambda>after. Local (\<lambda>m. (m(0 := int before, 1 := int after), Done)))))))
       (\<lambda>a. Dispatch 0 7 5 Done)"

text \<open>The bus with one handler, inside a delivery of event type 7.\<close>

definition in_flight :: world where
  "in_flight =
     PushFrame \<lparr>FrameSystem = 0, EventTypeIndex = 7, FrameEvent = 5\<rparr> one_registered"

section \<open>Order of delivery\<close>

text \<open>
  The order the slot list is kept in: \<open>before d r s\<close> when slot \<open>r\<close> has a higher priority
  than slot \<open>s\<close>, or the same priority and was subscribed earlier (slots enter the pool in
  the order of the calls of \<^verbatim>\<open>Subscribe\<close>).
\<close>

definition before :: "TDispatcher \<Rightarrow> slot_ref \<Rightarrow> slot_ref \<Rightarrow> bool" where
  "before d r s =
     (priority_key d r < priority_key d s \<or> (priority_key d r = priority_key d s \<and> r < s))"

definition slots_sorted :: "TDispatcher \<Rightarrow> bool" where
  "slots_sorted d = (refs_valid d \<and> sorted_wrt (before d) (Slots d))"

definition sorted_inv :: "world \<Rightarrow> bool" where
  "sorted_inv w = (\<forall>b E. slots_sorted (dispatcher_of w b E))"

text \<open>
  The callbacks the loop of one delivery invokes itself are the \<open>ByDispatch\<close> calls
  logged at the depth of the frame stack during that delivery; nested deliveries log at
  greater depths. \<open>balanced run\<close>: client code leaves the frame stack as it found it,
  only adds to the log, and all loop calls it adds are deeper than the stack it ran with.
\<close>

fun loop_call_at :: "nat \<Rightarrow> obs \<Rightarrow> slot_ref list" where
  "loop_call_at n (Call ByDispatch n' b E r ev) = (if n' = n then [r] else [])"
| "loop_call_at n x = []"

definition own_calls :: "nat \<Rightarrow> obs list \<Rightarrow> slot_ref list" where
  "own_calls n t = concat (map (loop_call_at n) t)"

fun loop_depth_ge :: "nat \<Rightarrow> obs \<Rightarrow> bool" where
  "loop_depth_ge n (Call ByDispatch n' b E r ev) = (n \<le> n')"
| "loop_depth_ge n x = True"

definition extends :: "(obs \<Rightarrow> bool) \<Rightarrow> world \<Rightarrow> world \<Rightarrow> bool" where
  "extends P w w' =
     (DispatchStack w' = DispatchStack w \<and> (\<exists>t. trace w' = trace w @ t \<and> (\<forall>x \<in> set t. P x)))"

definition balanced :: "runner \<Rightarrow> bool" where
  "balanced run =
     (\<forall>p w out w'. run p w = Some (out, w') \<longrightarrow>
        extends (loop_depth_ge (Suc (length (DispatchStack w)))) w w')"

text \<open>
  The world in which a callback is invoked: for a one-shot slot the flag has been cleared.
\<close>

definition claimed :: "bus_id \<Rightarrow> type_index \<Rightarrow> slot_ref \<Rightarrow> TSlot \<Rightarrow> world \<Rightarrow> world" where
  "claimed b E r slot w =
     (if IsOneShot slot then update_dispatcher b E (store_active r False) w else w)"

definition loop_trace :: "nat \<Rightarrow> slot_ref list \<Rightarrow> world \<Rightarrow> world \<Rightarrow> bool" where
  "loop_trace m snapshot w w' =
     (DispatchStack w' = DispatchStack w \<and>
      (\<exists>t. trace w' = trace w @ t \<and> (\<forall>x \<in> set t. loop_depth_ge m x) \<and>
           subseq (own_calls m t) snapshot))"

definition new_trace :: "world \<Rightarrow> world \<Rightarrow> obs list" where
  "new_trace w w' = drop (length (trace w)) (trace w')"

text \<open>
  Six handlers, subscribed in the order Low, High, Normal, High, Low, Normal. The handler
  with identifier \<open>k\<close> appends the digit \<open>k\<close> to the number in cell 0, so that the cell
  shows which callbacks have run and in which order.
\<close>

definition digit :: "int \<Rightarrow> event \<Rightarrow> prog" where
  "digit k = (\<lambda>ev. Local (\<lambda>m. (m(0 := m 0 * 10 + k), Done)))"

definition six_registered :: world where
  "six_registered =
     register_handler 0 7 Normal (digit 6) False
       (register_handler 0 7 Low (digit 5) False
         (register_handler 0 7 High (digit 4) False
           (register_handler 0 7 Normal (digit 3) False
             (register_handler 0 7 High (digit 2) False
               (register_handler 0 7 Low (digit 1) False init_world)))))"


section \<open>Slots waiting for excision\<close>

text \<open>
  A slot whose flag has been cleared stays in the slot list until the next cleanup:
  \<open>pending w b E\<close> are those slots of one dispatcher. \<open>settles run\<close>: client code leaves no
  more of them behind than it found.
\<close>

definition pending :: "world \<Rightarrow> bus_id \<Rightarrow> type_index \<Rightarrow> slot_ref set" where
  "pending w b E =
     {r \<in> set (Slots (dispatcher_of w b E)). \<not> is_active (dispatcher_of w b E) r}"

definition settles :: "runner \<Rightarrow> bool" where
  "settles run =
     (\<forall>p w out w'. run p w = Some (out, w') \<longrightarrow> (\<forall>b E. pending w' b E \<subseteq> pending w b E))"

text \<open>A one-shot handler that throws, and a Low handler behind it.\<close>

definition throwing_slot :: TSlot where
  "throwing_slot =
     \<lparr>SlotId = 1, Priority = Normal,
      CallbackV = (\<lambda>ev. Local (\<lambda>m. (m(0 := m 0 + 1), Throw))),
      IsOneShot = True, Active = True\<rparr>"

definition throwing_registered :: world where
  "throwing_registered =
     register_handler 0 7 Low (\<lambda>ev. Local (\<lambda>m. (m(1 := m 1 + 1), Done))) False
       (register_handler 0 7 Normal (\<lambda>ev. Local (\<lambda>m. (m(0 := m 0 + 1), Throw))) True
          init_world)"


section \<open>Subscribing during a delivery: notions\<close>

text \<open>The slot that \<^verbatim>\<open>TDispatcher::Subscribe\<close> creates.\<close>

definition new_slot :: "THandlerId \<Rightarrow> EPriority \<Rightarrow> (event \<Rightarrow> prog) \<Rightarrow> bool \<Rightarrow> TSlot" where
  "new_slot i p cb one_shot =
     \<lparr>SlotId = i, Priority = p, CallbackV = cb, IsOneShot = one_shot, Active = True\<rparr>"

text \<open>
  A callback that stores the event it is given. A bus with a High handler that subscribes
  such a callback at priority Normal and a Low handler; and that bus in the middle of
  three nested deliveries, the innermost of another event type.
\<close>

definition recorder :: "event \<Rightarrow> prog" where
  "recorder = (\<lambda>ev. Local (\<lambda>m. (m(0 := ev), Done)))"

definition subscribing_registered :: world where
  "subscribing_registered =
     register_handler 0 7 Low (\<lambda>ev. Local (\<lambda>m. (m(1 := ev), Done))) False
       (register_handler 0 7 High (\<lambda>ev. Subscribe 0 7 Normal recorder (\<lambda>i. Done)) False
          init_world)"

definition nested_frames :: world where
  "nested_frames =
     PushFrame \<lparr>FrameSystem = 0, EventTypeIndex = 8, FrameEvent = 9\<rparr>
       (PushFrame \<lparr>FrameSystem = 0, EventTypeIndex = 7, FrameEvent = 6\<rparr>
          (PushFrame \<lparr>FrameSystem = 0, EventTypeIndex = 7, FrameEvent = 5\<rparr>
             subscribing_registered))"


section \<open>The bus before the compare-and-set\<close>

text \<open>
  The repository also holds the bus and the dispatcher as they were before the
  compare-and-set, in the namespace \<^verbatim>\<open>event_system\<close>. The two revisions differ in
  \<^verbatim>\<open>dispatch\<close> and \<^verbatim>\<open>invokeSingle\<close> of the dispatcher only: the earlier ones test the flag,
  invoke the callback, and clear the flag of a one-shot slot after the callback has
  returned; they have no \<^verbatim>\<open>try\<close> block, so an exception leaves them with the flag as
  it was and without the cleanup. Registration, \<^verbatim>\<open>remove\<close>, \<^verbatim>\<open>count\<close>, \<^verbatim>\<open>cleanup\<close>,
  \<^verbatim>\<open>unsubscribe\<close> and the frame stack are the same code under other names, so the
  state changes defined above serve both. The functions of the bus that reach the
  dispatcher (\<^verbatim>\<open>subscribe\<close>, \<^verbatim>\<open>subscribeOnce\<close>, \<^verbatim>\<open>notifyCurrentDispatch\<close>, \<^verbatim>\<open>dispatch\<close>) read
  as before and are given again because they call the earlier one.
\<close>

fun Dispatcher_dispatch_loop ::
  "runner \<Rightarrow> bus_id \<Rightarrow> type_index \<Rightarrow> event \<Rightarrow> slot_ref list \<Rightarrow> bool \<Rightarrow> world
     \<Rightarrow> (outcome \<times> bool \<times> world) option" where
  "Dispatcher_dispatch_loop run b E ev [] need_cleanup w = Some (Returned, need_cleanup, w)"
| "Dispatcher_dispatch_loop run b E ev (r # snapshot) need_cleanup w =
     (case deref (dispatcher_of w b E) r of
        None \<Rightarrow> Dispatcher_dispatch_loop run b E ev snapshot need_cleanup w
      | Some slot \<Rightarrow>
          if \<not> Active slot then Dispatcher_dispatch_loop run b E ev snapshot need_cleanup w
          else
            (case invoke run ByDispatch b E r slot ev w of
               None \<Rightarrow> None
             | Some (Thrown, w') \<Rightarrow> Some (Thrown, need_cleanup, w')
             | Some (Returned, w') \<Rightarrow>
                 if IsOneShot slot
                 then Dispatcher_dispatch_loop run b E ev snapshot True
                        (update_dispatcher b E (store_active r False) w')
                 else Dispatcher_dispatch_loop run b E ev snapshot need_cleanup w'))"

text \<open>\<^verbatim>\<open>Dispatcher::dispatch\<close>: the cleanup is reached on the normal way out only.\<close>

definition Dispatcher_dispatch ::
  "runner \<Rightarrow> bus_id \<Rightarrow> type_index \<Rightarrow> event \<Rightarrow> world \<Rightarrow> (outcome \<times> world) option" where
  "Dispatcher_dispatch run b E ev w =
     (let snapshot = Slots (dispatcher_of w b E) in
      case Dispatcher_dispatch_loop run b E ev snapshot False w of
        None \<Rightarrow> None
      | Some (Thrown, need_cleanup, w') \<Rightarrow> Some (Thrown, w')
      | Some (Returned, need_cleanup, w') \<Rightarrow>
          Some (Returned, if need_cleanup then TDispatcher_Cleanup b E w' else w'))"

definition Dispatcher_invokeSingle ::
  "runner \<Rightarrow> bus_id \<Rightarrow> type_index \<Rightarrow> THandlerId \<Rightarrow> event \<Rightarrow> world
     \<Rightarrow> (outcome \<times> world) option" where
  "Dispatcher_invokeSingle run b E i ev w =
     (let d = dispatcher_of w b E in
      case find (has_id d i) (Slots d) of
        None \<Rightarrow> Some (Returned, w)
      | Some r \<Rightarrow>
          (case deref d r of
             None \<Rightarrow> Some (Returned, w)
           | Some slot \<Rightarrow>
               if \<not> Active slot then Some (Returned, w)
               else
                 (case invoke run ByInvokeSingle b E r slot ev w of
                    None \<Rightarrow> None
                  | Some (Thrown, w') \<Rightarrow> Some (Thrown, w')
                  | Some (Returned, w') \<Rightarrow>
                      if IsOneShot slot
                      then Some (Returned,
                             TDispatcher_Cleanup b E
                               (update_dispatcher b E (store_active r False) w'))
                      else Some (Returned, w'))))"

definition EventSystem_notifyCurrentDispatch ::
  "runner \<Rightarrow> bus_id \<Rightarrow> type_index \<Rightarrow> THandlerId \<Rightarrow> world \<Rightarrow> (outcome \<times> world) option" where
  "EventSystem_notifyCurrentDispatch run b E i w =
     (if DispatchStack w = [] then Some (Returned, w)
      else
        case find (\<lambda>f. FrameSystem f = b \<and> EventTypeIndex f = E) (rev (DispatchStack w)) of
          None \<Rightarrow> Some (Returned, w)
        | Some f \<Rightarrow>
            Dispatcher_invokeSingle run (FrameSystem f) (EventTypeIndex f) i (FrameEvent f) w)"

definition EventSystem_subscribe ::
  "runner \<Rightarrow> bus_id \<Rightarrow> type_index \<Rightarrow> EPriority \<Rightarrow> (event \<Rightarrow> prog) \<Rightarrow> world
     \<Rightarrow> (outcome \<times> THandlerId \<times> world) option" where
  "EventSystem_subscribe run b E p cb w =
     (let i = NextId (buses w b) in
      case EventSystem_notifyCurrentDispatch run b E i (register_handler b E p cb False w) of
        None \<Rightarrow> None
      | Some (out, w') \<Rightarrow> Some (out, i, w'))"

definition EventSystem_subscribeOnce ::
  "runner \<Rightarrow> bus_id \<Rightarrow> type_index \<Rightarrow> EPriority \<Rightarrow> (event \<Rightarrow> prog) \<Rightarrow> world
     \<Rightarrow> (outcome \<times> THandlerId \<times> world) option" where
  "EventSystem_subscribeOnce run b E p cb w =
     (let i = NextId (buses w b) in
      case EventSystem_notifyCurrentDispatch run b E i (register_handler b E p cb True w) of
        None \<Rightarrow> None
      | Some (out, w') \<Rightarrow> Some (out, i, w'))"

definition EventSystem_dispatch ::
  "runner \<Rightarrow> bus_id \<Rightarrow> type_index \<Rightarrow> event \<Rightarrow> world \<Rightarrow> (outcome \<times> world) option" where
  "EventSystem_dispatch run b E ev w =
     (let w1 = TEventSystem_GetDispatcher b E w;
          w2 = PushFrame \<lparr>FrameSystem = b, EventTypeIndex = E, FrameEvent = ev\<rparr> w1
      in case Dispatcher_dispatch run b E ev w2 of
           None \<Rightarrow> None
         | Some (out, w3) \<Rightarrow> Some (out, PopFrame w3))"

text \<open>Client code on the earlier bus: every bus call goes to the earlier functions.\<close>

fun exec_body_earlier :: "runner \<Rightarrow> prog \<Rightarrow> world \<Rightarrow> (outcome \<times> world) option" where
  "exec_body_earlier run Done w = Some (Returned, w)"
| "exec_body_earlier run Throw w = Some (Thrown, w)"
| "exec_body_earlier run (Subscribe b E p cb k) w =
     (case EventSystem_subscribe run b E p cb w of
        None \<Rightarrow> None
      | Some (Thrown, i, w') \<Rightarrow> Some (Thrown, w')
      | Some (Returned, i, w') \<Rightarrow> run (k i) w')"
| "exec_body_earlier run (SubscribeOnce b E p cb k) w =
     (case EventSystem_subscribeOnce run b E p cb w of
        None \<Rightarrow> None
      | Some (Thrown, i, w') \<Rightarrow> Some (Thrown, w')
      | Some (Returned, i, w') \<Rightarrow> run (k i) w')"
| "exec_body_earlier run (Unsubscribe b i k) w = run k (TEventSystem_Unsubscribe b i w)"
| "exec_body_earlier run (Dispatch b E ev k) w =
     (case EventSystem_dispatch run b E ev w of
        None \<Rightarrow> None
      | Some (Thrown, w') \<Rightarrow> Some (Thrown, w')
      | Some (Returned, w') \<Rightarrow> run k w')"
| "exec_body_earlier run (GetHandlerCount b E k) w =
     run (k (TEventSystem_GetHandlerCount b E w)) w"
| "exec_body_earlier run (Catch body k) w =
     (case run body w of
        None \<Rightarrow> None
      | Some (out, w') \<Rightarrow> run (k out) w')"
| "exec_body_earlier run (Local f) w =
     (case f (mem w) of (m, k) \<Rightarrow> run k (w\<lparr>mem := m\<rparr>))"

primrec exec_earlier :: "nat \<Rightarrow> runner" where
  "exec_earlier 0 = (\<lambda>p w. None)"
| "exec_earlier (Suc n) = exec_body_earlier (exec_earlier n)"

text \<open>
  A one-shot handler that counts its invocations in cell 0 and publishes its own event
  again from its callback until it has been invoked four times, registered and published
  to once.
\<close>

definition counting_one_shot :: prog where
  "counting_one_shot =
     SubscribeOnce 0 7 Normal
       (\<lambda>ev. Local (\<lambda>m. (m(0 := m 0 + 1), if m 0 < 3 then Dispatch 0 7 ev Done else Done)))
       (\<lambda>i. Dispatch 0 7 5 Done)"

text \<open>
  The test \<^verbatim>\<open>ExceptionDoesNotBreakSystemAndOneShotDoesNotRepeat\<close>: a Normal one-shot
  handler that counts in cell 0 and throws, a Low handler that counts in cell 1, and two
  publishes; cells 2 and 3 record whether the first and the second publish threw.
\<close>

definition publish_twice :: prog where
  "publish_twice =
     Catch (Dispatch 0 7 0 Done)
       (\<lambda>first. Catch (Dispatch 0 7 0 Done)
          (\<lambda>second. Local (\<lambda>m. (m(2 := (if first = Thrown then 1 else 0),
                                  3 := (if second = Thrown then 1 else 0)), Done))))"

definition throwing_one_shot :: prog where
  "throwing_one_shot =
     SubscribeOnce 0 7 Normal (\<lambda>ev. Local (\<lambda>m. (m(0 := m 0 + 1), Throw)))
       (\<lambda>i. Subscribe 0 7 Low (\<lambda>ev. Local (\<lambda>m. (m(1 := m 1 + 1), Done)))
          (\<lambda>j. publish_twice))"

section \<open>Facts about one dispatcher\<close>

lemma Slots_store_active [simp]: "Slots (store_active r v d) = Slots d"
  by (simp add: store_active_def)

lemma length_pool_store_active [simp]: "length (pool (store_active r v d)) = length (pool d)"
  by (simp add: store_active_def)

lemma deref_store_active:
  "deref (store_active r v d) x =
     (if x = r then map_option (\<lambda>s. s\<lparr>Active := v\<rparr>) (deref d r) else deref d x)"
  by (simp add: deref_def store_active_def)

lemma has_id_store_active [simp]: "has_id (store_active r v d) i = has_id d i"
  by (rule ext) (auto simp: has_id_def deref_store_active split: option.splits)

lemma is_active_store_False [simp]:
  "is_active (store_active r False d) = (\<lambda>x. x \<noteq> r \<and> is_active d x)"
  by (rule ext) (auto simp: is_active_def deref_store_active split: option.splits)

lemma deref_CleanupUnlocked [simp]: "deref (CleanupUnlocked d) = deref d"
  by (rule ext) (simp add: deref_def CleanupUnlocked_def)

lemma is_active_CleanupUnlocked [simp]: "is_active (CleanupUnlocked d) = is_active d"
  by (rule ext) (simp add: is_active_def)

lemma has_id_CleanupUnlocked [simp]: "has_id (CleanupUnlocked d) i = has_id d i"
  by (rule ext) (simp add: has_id_def)

lemma Slots_CleanupUnlocked [simp]:
  "Slots (CleanupUnlocked d) = filter (is_active d) (Slots d)"
  by (simp add: CleanupUnlocked_def)

lemma find_Some_mem: "find P xs = Some x \<Longrightarrow> x \<in> set xs \<and> P x"
  by (induction xs) (auto split: if_splits)

section \<open>Remove\<close>

text \<open>
  C6, as the code has it. \<^verbatim>\<open>Remove\<close> returns \<^verbatim>\<open>true\<close> exactly when \<^verbatim>\<open>find_if\<close> finds a
  slot with the identifier in \<^verbatim>\<open>Slots\<close>, whatever the flag of that slot is. It then
  clears the flag of the slot found and erases every inactive slot; when it
  returns \<^verbatim>\<open>false\<close> the dispatcher is unchanged.
\<close>

theorem Remove_true_iff_found:
  "(fst (TDispatcher_Remove i d) \<longleftrightarrow> (\<exists>r \<in> set (Slots d). has_id d i r)) \<and>
   (\<not> fst (TDispatcher_Remove i d) \<longrightarrow> snd (TDispatcher_Remove i d) = d) \<and>
   (\<forall>r. find (has_id d i) (Slots d) = Some r \<longrightarrow>
      \<not> is_active (snd (TDispatcher_Remove i d)) r \<and>
      Slots (snd (TDispatcher_Remove i d)) = filter (\<lambda>x. x \<noteq> r \<and> is_active d x) (Slots d))"
proof (cases "find (has_id d i) (Slots d)")
  case None
  then have "\<not> (\<exists>r \<in> set (Slots d). has_id d i r)"
    by (simp add: find_None_iff)
  with None show ?thesis
    by (simp add: TDispatcher_Remove_def)
next
  case (Some r)
  then have "r \<in> set (Slots d)" "has_id d i r"
    using find_Some_mem by fastforce+
  with Some show ?thesis
    by (auto simp: TDispatcher_Remove_def)
qed

theorem Remove_true_iff_found_witness:
  "find (has_id claimed_dispatcher 1) (Slots claimed_dispatcher) = Some 0 \<and>
   fst (TDispatcher_Remove 1 claimed_dispatcher) \<and>
   Slots (snd (TDispatcher_Remove 1 claimed_dispatcher)) = [] \<and>
   \<not> fst (TDispatcher_Remove 2 claimed_dispatcher) \<and>
   snd (TDispatcher_Remove 2 claimed_dispatcher) = claimed_dispatcher"
  using Remove_true_iff_found [of 1 claimed_dispatcher]
    Remove_true_iff_found [of 2 claimed_dispatcher]
  by (simp add: claimed_dispatcher_def has_id_def deref_def is_active_def)

text \<open>
  C6 as it is written fails: the slot with identifier 1 of \<open>claimed_dispatcher\<close> is
  already inactive, and \<^verbatim>\<open>Remove\<close> returns \<^verbatim>\<open>true\<close>.
\<close>

theorem Remove_inactive_slot_counterexample:
  "has_id claimed_dispatcher 1 0 \<and> \<not> is_active claimed_dispatcher 0 \<and>
   fst (TDispatcher_Remove 1 claimed_dispatcher) = True"
  by (simp add: claimed_dispatcher_def TDispatcher_Remove_def has_id_def deref_def
      is_active_def)

section \<open>The effect of each state change on each part of the world\<close>

lemma dispatcher_of_update [simp]:
  "dispatcher_of (update_dispatcher b E f w) b' E' =
     (if b' = b \<and> E' = E then f (dispatcher_of w b E) else dispatcher_of w b' E')"
  by (simp add: dispatcher_of_def update_dispatcher_def)

lemma update_dispatcher_other [simp]:
  "DispatchStack (update_dispatcher b E f w) = DispatchStack w"
  "trace (update_dispatcher b E f w) = trace w"
  "mem (update_dispatcher b E f w) = mem w"
  "HandlerTypes (buses (update_dispatcher b E f w) b') = HandlerTypes (buses w b')"
  "NextId (buses (update_dispatcher b E f w) b') = NextId (buses w b')"
  by (simp_all add: update_dispatcher_def)

lemma observe_simps [simp]:
  "dispatcher_of (observe x w) = dispatcher_of w"
  "DispatchStack (observe x w) = DispatchStack w"
  "trace (observe x w) = trace w @ [x]"
  "mem (observe x w) = mem w"
  "buses (observe x w) = buses w"
  by (simp_all add: observe_def dispatcher_of_def fun_eq_iff)

lemma PushFrame_simps [simp]:
  "dispatcher_of (PushFrame f w) = dispatcher_of w"
  "DispatchStack (PushFrame f w) = DispatchStack w @ [f]"
  "trace (PushFrame f w) = trace w"
  "mem (PushFrame f w) = mem w"
  "buses (PushFrame f w) = buses w"
  by (simp_all add: PushFrame_def dispatcher_of_def fun_eq_iff)

lemma PopFrame_simps [simp]:
  "dispatcher_of (PopFrame w) = dispatcher_of w"
  "DispatchStack (PopFrame w) = butlast (DispatchStack w)"
  "trace (PopFrame w) = trace w"
  "mem (PopFrame w) = mem w"
  "buses (PopFrame w) = buses w"
  by (simp_all add: PopFrame_def dispatcher_of_def fun_eq_iff)

lemma mem_update_simps [simp]:
  "dispatcher_of (w\<lparr>mem := m\<rparr>) = dispatcher_of w"
  by (simp_all add: dispatcher_of_def fun_eq_iff)

lemma GetDispatcher_simps [simp]:
  "dispatcher_of (TEventSystem_GetDispatcher b E w) = dispatcher_of w"
  "DispatchStack (TEventSystem_GetDispatcher b E w) = DispatchStack w"
  "trace (TEventSystem_GetDispatcher b E w) = trace w"
  "mem (TEventSystem_GetDispatcher b E w) = mem w"
  "HandlerTypes (buses (TEventSystem_GetDispatcher b E w) b') = HandlerTypes (buses w b')"
  "NextId (buses (TEventSystem_GetDispatcher b E w) b') = NextId (buses w b')"
  by (auto simp: TEventSystem_GetDispatcher_def dispatcher_of_def update_dispatcher_def fun_eq_iff
      split: option.splits)

lemma Cleanup_simps [simp]:
  "dispatcher_of (TDispatcher_Cleanup b E w) b' E' =
     (if b' = b \<and> E' = E then CleanupUnlocked (dispatcher_of w b E) else dispatcher_of w b' E')"
  "DispatchStack (TDispatcher_Cleanup b E w) = DispatchStack w"
  "trace (TDispatcher_Cleanup b E w) = trace w"
  "mem (TDispatcher_Cleanup b E w) = mem w"
  "HandlerTypes (buses (TDispatcher_Cleanup b E w) b') = HandlerTypes (buses w b')"
  "NextId (buses (TDispatcher_Cleanup b E w) b') = NextId (buses w b')"
  by (simp_all add: TDispatcher_Cleanup_def)

lemma fetch_add_simps [simp]:
  "dispatcher_of (fetch_add_NextId b w) = dispatcher_of w"
  "DispatchStack (fetch_add_NextId b w) = DispatchStack w"
  "trace (fetch_add_NextId b w) = trace w @ [Issued b (NextId (buses w b))]"
  "mem (fetch_add_NextId b w) = mem w"
  "HandlerTypes (buses (fetch_add_NextId b w) b') = HandlerTypes (buses w b')"
  "NextId (buses (fetch_add_NextId b w) b') =
     (if b' = b then (NextId (buses w b) + 1) mod 2 ^ 64 else NextId (buses w b'))"
  by (simp_all add: fetch_add_NextId_def dispatcher_of_def fun_eq_iff)

lemma emplace_simps [simp]:
  "dispatcher_of (emplace_HandlerTypes b i E w) = dispatcher_of w"
  "DispatchStack (emplace_HandlerTypes b i E w) = DispatchStack w"
  "trace (emplace_HandlerTypes b i E w) = trace w"
  "mem (emplace_HandlerTypes b i E w) = mem w"
  "HandlerTypes (buses (emplace_HandlerTypes b i E w) b') =
     (if b' = b \<and> HandlerTypes (buses w b) i = None then (HandlerTypes (buses w b))(i \<mapsto> E)
      else HandlerTypes (buses w b'))"
  "NextId (buses (emplace_HandlerTypes b i E w) b') = NextId (buses w b')"
  by (auto simp: emplace_HandlerTypes_def dispatcher_of_def fun_eq_iff split: option.splits)

lemma register_simps:
  "dispatcher_of (register_handler b E p cb os w) b' E' =
     (if b' = b \<and> E' = E
      then TDispatcher_Subscribe (NextId (buses w b)) p cb os (dispatcher_of w b E)
      else dispatcher_of w b' E')"
  "DispatchStack (register_handler b E p cb os w) = DispatchStack w"
  "trace (register_handler b E p cb os w) = trace w @ [Issued b (NextId (buses w b))]"
  "mem (register_handler b E p cb os w) = mem w"
  "HandlerTypes (buses (register_handler b E p cb os w) b') =
     (if b' = b \<and> HandlerTypes (buses w b) (NextId (buses w b)) = None
      then (HandlerTypes (buses w b))(NextId (buses w b) \<mapsto> E)
      else HandlerTypes (buses w b'))"
  "NextId (buses (register_handler b E p cb os w) b') =
     (if b' = b then (NextId (buses w b) + 1) mod 2 ^ 64 else NextId (buses w b'))"
  by (simp_all add: register_handler_def Let_def)

lemma Unsubscribe_simps:
  "dispatcher_of (TEventSystem_Unsubscribe b i w) b' E' =
     (if b' = b \<and> HandlerTypes (buses w b) i = Some E'
      then snd (TDispatcher_Remove i (dispatcher_of w b E'))
      else dispatcher_of w b' E')"
  "DispatchStack (TEventSystem_Unsubscribe b i w) = DispatchStack w"
  "trace (TEventSystem_Unsubscribe b i w) =
     trace w @ Unsub b i #
       (case removed_slot w b i of None \<Rightarrow> [] | Some (E, r) \<Rightarrow> [Removed b E r])"
  "mem (TEventSystem_Unsubscribe b i w) = mem w"
  "HandlerTypes (buses (TEventSystem_Unsubscribe b i w) b') =
     (if b' = b then (HandlerTypes (buses w b))(i := None) else HandlerTypes (buses w b'))"
  "NextId (buses (TEventSystem_Unsubscribe b i w) b') = NextId (buses w b')"
  by (auto simp: TEventSystem_Unsubscribe_def Let_def dispatcher_of_def removed_slot_def
      TDispatcher_Remove_def update_dispatcher_def observe_def fun_eq_iff
      split: option.splits)

section \<open>Every run is a sequence of state changes\<close>

lemma steps_onlyD: "steps_only run \<Longrightarrow> run p w = Some (out, w') \<Longrightarrow> prim_step\<^sup>*\<^sup>* w w'"
  by (auto simp: steps_only_def)

lemma invoke_claim_steps:
  assumes "steps_only run" "deref (dispatcher_of w b E) r = Some slot" "IsOneShot slot" "Active slot"
    "invoke run v b E r slot ev (update_dispatcher b E (store_active r False) w) = Some (out, w')"
  shows "prim_step\<^sup>*\<^sup>* w w'"
proof -
  have "prim_step w (observe (Call v (length (DispatchStack w)) b E r ev)
                   (update_dispatcher b E (store_active r False) w))"
    using assms(2-4) by (rule ps_claim)
  moreover have "prim_step\<^sup>*\<^sup>* (observe (Call v (length (DispatchStack w)) b E r ev)
                   (update_dispatcher b E (store_active r False) w)) w'"
    using assms(1,5) by (auto simp: invoke_def dest: steps_onlyD)
  ultimately show ?thesis by (rule converse_rtranclp_into_rtranclp)
qed

lemma invoke_call_steps:
  assumes "steps_only run" "deref (dispatcher_of w b E) r = Some slot" "\<not> IsOneShot slot" "Active slot"
    "invoke run v b E r slot ev w = Some (out, w')"
  shows "prim_step\<^sup>*\<^sup>* w w'"
proof -
  have "prim_step w (observe (Call v (length (DispatchStack w)) b E r ev) w)"
    using assms(2-4) by (rule ps_call)
  moreover have "prim_step\<^sup>*\<^sup>* (observe (Call v (length (DispatchStack w)) b E r ev) w) w'"
    using assms(1,5) by (auto simp: invoke_def dest: steps_onlyD)
  ultimately show ?thesis by (rule converse_rtranclp_into_rtranclp)
qed

lemma DispatchLoop_steps:
  assumes "steps_only run"
  shows "DispatchLoop run b E ev snapshot nc w = Some (out, nc', w') \<Longrightarrow> prim_step\<^sup>*\<^sup>* w w'"
proof (induction snapshot arbitrary: nc w)
  case Nil
  then show ?case by simp
next
  case (Cons r snapshot)
  show ?case
  proof (cases "deref (dispatcher_of w b E) r")
    case None
    with Cons show ?thesis by simp
  next
    case (Some slot)
    show ?thesis
    proof (cases "Active slot")
      case False
      with Some Cons show ?thesis by (auto split: if_splits)
    next
      case True
      show ?thesis
      proof (cases "IsOneShot slot")
        case os: True
        from Cons.prems Some True os obtain o1 w1 where
          inv: "invoke run ByDispatch b E r slot ev (update_dispatcher b E (store_active r False) w) = Some (o1, w1)"
          and rest: "o1 = Thrown \<and> w' = w1 \<or> o1 = Returned \<and> DispatchLoop run b E ev snapshot True w1 = Some (out, nc', w')"
          by (auto split: option.splits outcome.splits)
        have "prim_step\<^sup>*\<^sup>* w w1"
          using assms Some os True inv by (rule invoke_claim_steps)
        moreover have "prim_step\<^sup>*\<^sup>* w1 w'"
          using rest Cons.IH by auto
        ultimately show ?thesis by simp
      next
        case os: False
        from Cons.prems Some True os obtain o1 w1 where
          inv: "invoke run ByDispatch b E r slot ev w = Some (o1, w1)"
          and rest: "o1 = Thrown \<and> w' = w1 \<or> o1 = Returned \<and> DispatchLoop run b E ev snapshot nc w1 = Some (out, nc', w')"
          by (auto split: option.splits outcome.splits)
        have "prim_step\<^sup>*\<^sup>* w w1"
          using assms Some os True inv by (rule invoke_call_steps)
        moreover have "prim_step\<^sup>*\<^sup>* w1 w'"
          using rest Cons.IH by auto
        ultimately show ?thesis by simp
      qed
    qed
  qed
qed

lemma TDispatcher_Dispatch_steps:
  assumes "steps_only run" "TDispatcher_Dispatch run b E ev w = Some (out, w')"
  shows "prim_step\<^sup>*\<^sup>* w w'"
proof -
  from assms(2) obtain nc w1 where
    loop: "DispatchLoop run b E ev (Slots (dispatcher_of w b E)) False w = Some (out, nc, w1)"
    and w': "w' = (if nc then TDispatcher_Cleanup b E w1 else w1)"
    by (auto simp: TDispatcher_Dispatch_def split: option.splits)
  have "prim_step\<^sup>*\<^sup>* w w1"
    using assms(1) loop by (rule DispatchLoop_steps)
  moreover have "prim_step\<^sup>*\<^sup>* w1 w'"
    using w' by (auto intro: ps_cleanup)
  ultimately show ?thesis by simp
qed

lemma TEventSystem_Dispatch_steps:
  assumes "steps_only run" "TEventSystem_Dispatch run b E ev w = Some (out, w')"
  shows "prim_step\<^sup>*\<^sup>* w w'"
proof -
  let ?w1 = "TEventSystem_GetDispatcher b E w"
  let ?w2 = "PushFrame \<lparr>FrameSystem = b, EventTypeIndex = E, FrameEvent = ev\<rparr> ?w1"
  from assms(2) obtain w3 where
    d: "TDispatcher_Dispatch run b E ev ?w2 = Some (out, w3)" and w': "w' = PopFrame w3"
    by (auto simp: TEventSystem_Dispatch_def Let_def split: option.splits)
  have "prim_step w ?w1" by (rule ps_get)
  moreover have "prim_step ?w1 ?w2" by (rule ps_push)
  moreover have "prim_step\<^sup>*\<^sup>* ?w2 w3"
    using assms(1) d by (rule TDispatcher_Dispatch_steps)
  moreover have "prim_step w3 w'" unfolding w' by (rule ps_pop)
  ultimately show ?thesis by (meson converse_rtranclp_into_rtranclp rtranclp.rtrancl_into_rtrancl)
qed

lemma TDispatcher_InvokeSingle_steps:
  assumes "steps_only run" "TDispatcher_InvokeSingle run b E i ev w = Some (out, w')"
  shows "prim_step\<^sup>*\<^sup>* w w'"
proof (cases "find (has_id (dispatcher_of w b E) i) (Slots (dispatcher_of w b E))")
  case None
  with assms(2) show ?thesis by (simp add: TDispatcher_InvokeSingle_def)
next
  case found: (Some r)
  show ?thesis
  proof (cases "deref (dispatcher_of w b E) r")
    case None
    with found assms(2) show ?thesis by (simp add: TDispatcher_InvokeSingle_def)
  next
    case (Some slot)
    show ?thesis
    proof (cases "Active slot")
      case False
      with found Some assms(2) show ?thesis
        by (auto simp: TDispatcher_InvokeSingle_def split: if_splits)
    next
      case True
      show ?thesis
      proof (cases "IsOneShot slot")
        case os: True
        from assms(2) found Some True os obtain w1 where
          inv: "invoke run ByInvokeSingle b E r slot ev (update_dispatcher b E (store_active r False) w) = Some (out, w1)"
          and w': "w' = TDispatcher_Cleanup b E w1"
          by (auto simp: TDispatcher_InvokeSingle_def split: option.splits)
        have "prim_step\<^sup>*\<^sup>* w w1"
          using assms(1) Some os True inv by (rule invoke_claim_steps)
        moreover have "prim_step w1 w'" unfolding w' by (rule ps_cleanup)
        ultimately show ?thesis by simp
      next
        case os: False
        from assms(2) found Some True os have
          inv: "invoke run ByInvokeSingle b E r slot ev w = Some (out, w')"
          by (auto simp: TDispatcher_InvokeSingle_def split: option.splits)
        show ?thesis
          using assms(1) Some os True inv by (rule invoke_call_steps)
      qed
    qed
  qed
qed

lemma NotifyCurrentDispatch_steps:
  assumes "steps_only run" "TEventSystem_NotifyCurrentDispatch run b E i w = Some (out, w')"
  shows "prim_step\<^sup>*\<^sup>* w w'"
  using assms
  by (auto simp: TEventSystem_NotifyCurrentDispatch_def split: if_splits option.splits
      dest: TDispatcher_InvokeSingle_steps)

lemma SubscribeImpl_steps:
  assumes "steps_only run" "TEventSystem_SubscribeImpl run b E p cb os w = Some (out, i, w')"
  shows "prim_step\<^sup>*\<^sup>* w w'"
proof -
  from assms(2) have
    n: "TEventSystem_NotifyCurrentDispatch run b E (NextId (buses w b)) (register_handler b E p cb os w) = Some (out, w')"
    by (auto simp: TEventSystem_SubscribeImpl_def Let_def split: option.splits)
  have "prim_step w (register_handler b E p cb os w)" by (rule ps_register)
  moreover have "prim_step\<^sup>*\<^sup>* (register_handler b E p cb os w) w'"
    using assms(1) n by (rule NotifyCurrentDispatch_steps)
  ultimately show ?thesis by (rule converse_rtranclp_into_rtranclp)
qed

lemma exec_body_steps:
  assumes "steps_only run" "exec_body run p w = Some (out, w')"
  shows "prim_step\<^sup>*\<^sup>* w w'"
proof (cases p)
  case Done
  with assms show ?thesis by simp
next
  case Throw
  with assms show ?thesis by simp
next
  case (Subscribe b E pr cb k)
  with assms(2) obtain o1 i w1 where
    s: "TEventSystem_SubscribeImpl run b E pr cb False w = Some (o1, i, w1)"
    and rest: "o1 = Thrown \<and> w' = w1 \<or> o1 = Returned \<and> run (k i) w1 = Some (out, w')"
    by (auto split: option.splits outcome.splits)
  have "prim_step\<^sup>*\<^sup>* w w1" using assms(1) s by (rule SubscribeImpl_steps)
  moreover have "prim_step\<^sup>*\<^sup>* w1 w'" using rest assms(1) by (auto dest: steps_onlyD)
  ultimately show ?thesis by simp
next
  case (SubscribeOnce b E pr cb k)
  with assms(2) obtain o1 i w1 where
    s: "TEventSystem_SubscribeImpl run b E pr cb True w = Some (o1, i, w1)"
    and rest: "o1 = Thrown \<and> w' = w1 \<or> o1 = Returned \<and> run (k i) w1 = Some (out, w')"
    by (auto split: option.splits outcome.splits)
  have "prim_step\<^sup>*\<^sup>* w w1" using assms(1) s by (rule SubscribeImpl_steps)
  moreover have "prim_step\<^sup>*\<^sup>* w1 w'" using rest assms(1) by (auto dest: steps_onlyD)
  ultimately show ?thesis by simp
next
  case (Unsubscribe b i k)
  with assms(2) have "run k (TEventSystem_Unsubscribe b i w) = Some (out, w')" by simp
  then have "prim_step\<^sup>*\<^sup>* (TEventSystem_Unsubscribe b i w) w'"
    using assms(1) by (auto dest: steps_onlyD)
  moreover have "prim_step w (TEventSystem_Unsubscribe b i w)" by (rule ps_unsubscribe)
  ultimately show ?thesis by (simp add: converse_rtranclp_into_rtranclp)
next
  case (Dispatch b E ev k)
  with assms(2) obtain o1 w1 where
    s: "TEventSystem_Dispatch run b E ev w = Some (o1, w1)"
    and rest: "o1 = Thrown \<and> w' = w1 \<or> o1 = Returned \<and> run k w1 = Some (out, w')"
    by (auto split: option.splits outcome.splits)
  have "prim_step\<^sup>*\<^sup>* w w1" using assms(1) s by (rule TEventSystem_Dispatch_steps)
  moreover have "prim_step\<^sup>*\<^sup>* w1 w'" using rest assms(1) by (auto dest: steps_onlyD)
  ultimately show ?thesis by simp
next
  case (GetHandlerCount b E k)
  with assms show ?thesis by (auto dest: steps_onlyD)
next
  case (Catch body k)
  with assms(2) obtain o1 w1 where
    "run body w = Some (o1, w1)" "run (k o1) w1 = Some (out, w')"
    by (auto split: option.splits)
  then have "prim_step\<^sup>*\<^sup>* w w1" "prim_step\<^sup>*\<^sup>* w1 w'"
    using assms(1) by (auto dest: steps_onlyD)
  then show ?thesis by simp
next
  case (Local f)
  obtain m k where f: "f (mem w) = (m, k)" by (cases "f (mem w)")
  with Local assms(2) have "run k (w\<lparr>mem := m\<rparr>) = Some (out, w')" by simp
  then have "prim_step\<^sup>*\<^sup>* (w\<lparr>mem := m\<rparr>) w'"
    using assms(1) by (auto dest: steps_onlyD)
  moreover have "prim_step w (w\<lparr>mem := m\<rparr>)" by (rule ps_local)
  ultimately show ?thesis by (simp add: converse_rtranclp_into_rtranclp)
qed

lemma steps_only_exec: "steps_only (exec n)"
proof (induction n)
  case 0
  show ?case by (simp add: steps_only_def)
next
  case (Suc n)
  then show ?case
    unfolding steps_only_def by (auto dest: exec_body_steps [rotated] simp: steps_only_def)
qed

lemma exec_steps: "exec n p w = Some (out, w') \<Longrightarrow> prim_step\<^sup>*\<^sup>* w w'"
  using steps_only_exec by (rule steps_onlyD)

lemma invariant_steps:
  assumes "prim_step\<^sup>*\<^sup>* w w'" "P w" "\<And>u u'. prim_step u u' \<Longrightarrow> P u \<Longrightarrow> P u'"
  shows "P w'"
  using assms(1,2) by (induction rule: rtranclp_induct) (auto intro: assms(3))

section \<open>Evaluating runs\<close>

lemma init_world_simps [simp]:
  "dispatcher_of init_world b E = \<lparr>Slots = [], pool = []\<rparr>"
  "DispatchStack init_world = []"
  "trace init_world = []"
  "mem init_world = (\<lambda>x. 0)"
  "HandlerTypes (buses init_world b) = Map.empty"
  "NextId (buses init_world b) = 1"
  by (simp_all add: init_world_def new_bus_def dispatcher_of_def)

lemma GetHandlerCount_eq:
  "TEventSystem_GetHandlerCount b E w = TDispatcher_Count (dispatcher_of w b E)"
  by (simp add: TEventSystem_GetHandlerCount_def dispatcher_of_def TDispatcher_Count_def
      split: option.splits)

lemma exec_numeral: "exec (numeral k) = exec_body (exec (pred_numeral k))"
  by (simp add: numeral_eq_Suc)

lemmas run_simps =
  exec_numeral register_simps Unsubscribe_simps GetHandlerCount_eq
  TEventSystem_SubscribeImpl_def TEventSystem_NotifyCurrentDispatch_def
  TEventSystem_Dispatch_def TDispatcher_Dispatch_def TDispatcher_InvokeSingle_def
  invoke_def Let_def
  TDispatcher_Subscribe_def TDispatcher_Remove_def CleanupUnlocked_def store_active_def
  deref_def has_id_def is_active_def priority_key_def sort_key_def removed_slot_def
  TDispatcher_Count_def


section \<open>One-shot handlers\<close>

lemma length_pool_Subscribe [simp]:
  "length (pool (TDispatcher_Subscribe i p cb os d)) = Suc (length (pool d))"
  by (simp add: TDispatcher_Subscribe_def Let_def)

lemma deref_Subscribe:
  "deref (TDispatcher_Subscribe i p cb os d) r =
     (if r = length (pool d)
      then Some \<lparr>SlotId = i, Priority = p, CallbackV = cb, IsOneShot = os, Active = True\<rparr>
      else deref d r)"
  by (auto simp: TDispatcher_Subscribe_def Let_def deref_def nth_append)

lemma length_pool_Remove [simp]:
  "length (pool (snd (TDispatcher_Remove i d))) = length (pool d)"
  by (simp add: TDispatcher_Remove_def CleanupUnlocked_def split: option.splits)

lemma deref_Remove:
  "deref (snd (TDispatcher_Remove i d)) r =
     (if find (has_id d i) (Slots d) = Some r
      then map_option (\<lambda>s. s\<lparr>Active := False\<rparr>) (deref d r)
      else deref d r)"
  by (auto simp: TDispatcher_Remove_def deref_store_active split: option.splits)

lemma length_pool_CleanupUnlocked [simp]: "length (pool (CleanupUnlocked d)) = length (pool d)"
  by (simp add: CleanupUnlocked_def)

lemma deref_Some_length: "deref d r = Some s \<Longrightarrow> r < length (pool d)"
  by (simp add: deref_def split: if_splits)

lemma calls_simps [simp]:
  "calls (register_handler b E p cb os w) = calls w"
  "calls (TEventSystem_GetDispatcher b E w) = calls w"
  "calls (PushFrame f w) = calls w"
  "calls (PopFrame w) = calls w"
  "calls (TDispatcher_Cleanup b E w) = calls w"
  "calls (w\<lparr>mem := m\<rparr>) = calls w"
  "calls (update_dispatcher b E g w) = calls w"
  "calls (TEventSystem_Unsubscribe b i w) = calls w"
  by (auto simp: calls_def fun_eq_iff register_simps Unsubscribe_simps split: option.splits)

lemma calls_observe_Call [simp]:
  "calls (observe (Call v n b E r ev) w) b' E' r' =
     (if b' = b \<and> E' = E \<and> r' = r then Suc (calls w b E r) else calls w b' E' r')"
  by (auto simp: calls_def)

lemma one_shot_inv_step:
  assumes "prim_step u u'" "one_shot_inv u"
  shows "one_shot_inv u'"
  using assms
proof (cases rule: prim_step.cases)
  case (ps_register b E p cb os)
  show ?thesis
    unfolding one_shot_inv_def
  proof (intro allI conjI impI)
    fix b' E' r
    assume "0 < calls u' b' E' r"
    then show "r < length (pool (dispatcher_of u' b' E'))"
      using assms(2) by (auto simp: ps_register register_simps one_shot_inv_def less_Suc_eq)
  next
    fix b' E' r slot
    assume d: "deref (dispatcher_of u' b' E') r = Some slot" and os: "IsOneShot slot"
    show "calls u' b' E' r + (if Active slot then 1 else 0) \<le> 1"
    proof (cases "b' = b \<and> E' = E \<and> r = length (pool (dispatcher_of u b E))")
      case True
      then have "calls u b E r = 0"
        using assms(2) by (auto simp: one_shot_inv_def)
      with True show ?thesis by (simp add: ps_register)
    next
      case False
      with d have "deref (dispatcher_of u b' E') r = Some slot"
        by (auto simp: ps_register register_simps deref_Subscribe split: if_splits)
      with os assms(2) show ?thesis
        by (simp add: ps_register one_shot_inv_def)
    qed
  qed
next
  case (ps_unsubscribe b i)
  show ?thesis
    unfolding one_shot_inv_def
  proof (intro allI conjI impI)
    fix b' E' r
    assume "0 < calls u' b' E' r"
    then show "r < length (pool (dispatcher_of u' b' E'))"
      using assms(2) by (auto simp: ps_unsubscribe Unsubscribe_simps one_shot_inv_def)
  next
    fix b' E' r slot
    assume d: "deref (dispatcher_of u' b' E') r = Some slot" and os: "IsOneShot slot"
    then obtain s0 where "deref (dispatcher_of u b' E') r = Some s0" "IsOneShot s0"
      "Active slot \<longrightarrow> Active s0"
      by (auto simp: ps_unsubscribe Unsubscribe_simps deref_Remove split: if_splits)
    with assms(2) show "calls u' b' E' r + (if Active slot then 1 else 0) \<le> 1"
      by (fastforce simp: ps_unsubscribe one_shot_inv_def split: if_splits)
  qed
next
  case (ps_claim b E r slot v ev)
  show ?thesis
    unfolding one_shot_inv_def
  proof (intro allI conjI impI)
    fix b' E' r'
    assume "0 < calls u' b' E' r'"
    then show "r' < length (pool (dispatcher_of u' b' E'))"
      using assms(2) ps_claim(2)
      by (auto simp: ps_claim(1) one_shot_inv_def dest: deref_Some_length split: if_splits)
  next
    fix b' E' r' s
    assume d: "deref (dispatcher_of u' b' E') r' = Some s" and os: "IsOneShot s"
    show "calls u' b' E' r' + (if Active s then 1 else 0) \<le> 1"
    proof (cases "b' = b \<and> E' = E \<and> r' = r")
      case True
      with d ps_claim have "\<not> Active s"
        by (auto simp: deref_store_active)
      moreover have "calls u b E r = 0"
        using assms(2) ps_claim(2-4) by (fastforce simp: one_shot_inv_def)
      ultimately show ?thesis using True by (simp add: ps_claim(1))
    next
      case False
      with d have "deref (dispatcher_of u b' E') r' = Some s"
        by (auto simp: ps_claim(1) deref_store_active split: if_splits)
      with os assms(2) have "calls u b' E' r' + (if Active s then 1 else 0) \<le> 1"
        unfolding one_shot_inv_def by blast
      with False show ?thesis
        by (auto simp: ps_claim(1))
    qed
  qed
next
  case (ps_call b E r slot v ev)
  then show ?thesis
    using assms(2)
    by (auto simp: one_shot_inv_def dest: deref_Some_length)
qed (auto simp: one_shot_inv_def)

lemma one_shot_inv_init: "one_shot_inv init_world"
  by (simp add: one_shot_inv_def init_world_def calls_def)

lemma exec_one_shot_inv: "exec n p w = Some (out, w') \<Longrightarrow> one_shot_inv w \<Longrightarrow> one_shot_inv w'"
  using exec_steps invariant_steps one_shot_inv_step by blast

text \<open>
  The bus with the compare-and-set (\<^verbatim>\<open>NEventSystem\<close>). In every run of every client
  program from the initial world, through any number of deliveries, nested or not, the
  callback of a one-shot slot is invoked at most once, and
  once it has been invoked the flag of the slot is \<^verbatim>\<open>false\<close>: the flag is cleared before
  the callback runs, so every later delivery skips the slot.
\<close>

theorem one_shot_invoked_at_most_once:
  assumes "exec n p init_world = Some (out, w)"
    and "deref (dispatcher_of w b E) r = Some slot"
    and "IsOneShot slot"
  shows "calls w b E r \<le> 1 \<and> (0 < calls w b E r \<longrightarrow> \<not> Active slot)"
proof -
  have "one_shot_inv w"
    using assms(1) one_shot_inv_init by (rule exec_one_shot_inv)
  then have "calls w b E r + (if Active slot then 1 else 0) \<le> 1"
    using assms(2,3) unfolding one_shot_inv_def by blast
  then show ?thesis
    by (auto split: if_splits)
qed

theorem one_shot_invoked_at_most_once_witness:
  "\<exists>w slot. exec 5 republishing_one_shot init_world = Some (Returned, w) \<and>
      deref (dispatcher_of w 0 7) 0 = Some slot \<and> IsOneShot slot \<and>
      0 < calls w 0 7 0 \<and> calls w 0 7 0 \<le> 1 \<and> \<not> Active slot"
proof -
  have "\<exists>w slot. exec 5 republishing_one_shot init_world = Some (Returned, w) \<and>
      deref (dispatcher_of w 0 7) 0 = Some slot \<and> IsOneShot slot \<and> 0 < calls w 0 7 0"
    by (simp add: republishing_one_shot_def run_simps calls_def)
  then obtain w slot where
    run: "exec 5 republishing_one_shot init_world = Some (Returned, w)"
    and slot: "deref (dispatcher_of w 0 7) 0 = Some slot" "IsOneShot slot"
    and called: "0 < calls w 0 7 0"
    by blast
  from one_shot_invoked_at_most_once [OF run slot] called
  show ?thesis using run slot by blast
qed

section \<open>Handler identifiers count up per bus\<close>

lemma issued_by_simps [simp]:
  "issued_by b (TEventSystem_GetDispatcher b' E w) = issued_by b w"
  "issued_by b (PushFrame f w) = issued_by b w"
  "issued_by b (PopFrame w) = issued_by b w"
  "issued_by b (TDispatcher_Cleanup b' E w) = issued_by b w"
  "issued_by b (w\<lparr>mem := m\<rparr>) = issued_by b w"
  "issued_by b (update_dispatcher b' E g w) = issued_by b w"
  "issued_by b (TEventSystem_Unsubscribe b' i w) = issued_by b w"
  "issued_by b (observe (Call v n b' E r ev) w) = issued_by b w"
  "issued_by b (register_handler b' E p cb os w) =
     (if b' = b then issued_by b w @ [NextId (buses w b)] else issued_by b w)"
  by (auto simp: issued_by_def register_simps Unsubscribe_simps split: option.splits)

lemma id_inv_step:
  assumes "prim_step u u'" "id_inv u"
  shows "id_inv u'"
  using assms
proof (cases rule: prim_step.cases)
  case (ps_register b E p cb os)
  show ?thesis
    unfolding id_inv_def
  proof (intro allI)
    fix b'
    from assms(2) have
      a: "issued_by b' u = map (\<lambda>k. k mod 2 ^ 64) [1..<Suc (length (issued_by b' u))]"
      and n: "NextId (buses u b') = Suc (length (issued_by b' u)) mod 2 ^ 64"
      by (auto simp: id_inv_def)
    show "issued_by b' u' = map (\<lambda>k. k mod 2 ^ 64) [1..<Suc (length (issued_by b' u'))] \<and>
          NextId (buses u' b') = Suc (length (issued_by b' u')) mod 2 ^ 64"
    proof (cases "b' = b")
      case True
      have "(Suc (length (issued_by b u)) mod 2 ^ 64 + 1) mod 2 ^ 64 =
            Suc (Suc (length (issued_by b u))) mod (2 ^ 64 :: nat)"
        by (simp add: mod_Suc_eq)
      with True a n show ?thesis
        by (simp add: ps_register register_simps)
    next
      case False
      with a n show ?thesis
        by (simp add: ps_register register_simps)
    qed
  qed
qed (auto simp: id_inv_def Unsubscribe_simps)

lemma id_inv_init: "id_inv init_world"
  by (simp add: id_inv_def issued_by_def)

lemma exec_id_inv: "exec n p w = Some (out, w') \<Longrightarrow> id_inv w \<Longrightarrow> id_inv w'"
  using exec_steps invariant_steps id_inv_step by blast

lemma SubscribeImpl_returns_NextId:
  assumes "TEventSystem_SubscribeImpl run b E p cb os w = Some (out, i, w')"
  shows "i = NextId (buses w b) \<and>
         issued_by b (register_handler b E p cb os w) = issued_by b w @ [i]"
  using assms by (auto simp: TEventSystem_SubscribeImpl_def Let_def split: option.splits)

text \<open>
  C8, as the code has it. The counter \<^verbatim>\<open>NextId\<close> is a member of the bus, so the
  identifiers count up per bus: in every run from the initial world, the identifiers one
  bus has issued are \<open>1, 2, \<dots>, k\<close> in this order, as long as the bus has issued fewer
  than \<open>2 ^ 64\<close> of them. So each is at least 1, greater than every earlier one of the
  same bus, and 0 is not among them.
\<close>

theorem ids_of_one_bus_count_up:
  assumes "exec n p init_world = Some (out, w)"
    and "length (issued_by b w) < 2 ^ 64"
  shows "issued_by b w = [1..<Suc (length (issued_by b w))] \<and>
         sorted_wrt (<) (issued_by b w) \<and> 0 \<notin> set (issued_by b w)"
proof -
  have "id_inv w"
    using assms(1) id_inv_init by (rule exec_id_inv)
  then have "issued_by b w = map (\<lambda>k. k mod 2 ^ 64) [1..<Suc (length (issued_by b w))]"
    by (simp add: id_inv_def)
  also have "\<dots> = map (\<lambda>k. k) [1..<Suc (length (issued_by b w))]"
    using assms(2) by (intro map_cong) auto
  finally have eq: "issued_by b w = [1..<Suc (length (issued_by b w))]"
    by simp
  have "sorted_wrt (<) [1..<Suc (length (issued_by b w))]"
    by (rule sorted_wrt_upt)
  moreover have "0 \<notin> set [1..<Suc (length (issued_by b w))]"
    by (simp del: upt_Suc)
  ultimately show ?thesis
    using eq by metis
qed

theorem ids_of_one_bus_count_up_witness:
  "\<exists>w. exec 3 two_handlers init_world = Some (Returned, w) \<and>
      length (issued_by 0 w) < 2 ^ 64 \<and> issued_by 0 w = [1, 2] \<and>
      sorted_wrt (<) (issued_by 0 w) \<and> 0 \<notin> set (issued_by 0 w)"
proof -
  have "\<exists>w. exec 3 two_handlers init_world = Some (Returned, w) \<and> issued_by 0 w = [1, 2]"
    by (simp add: two_handlers_def run_simps issued_by_def)
  then obtain w where
    run: "exec 3 two_handlers init_world = Some (Returned, w)" and ids: "issued_by 0 w = [1, 2]"
    by blast
  have len: "length (issued_by 0 w) < 2 ^ 64"
    by (simp add: ids)
  from ids_of_one_bus_count_up [OF run len] show ?thesis
    using run ids len by blast
qed

lemma last_id_world_simps [simp]:
  "dispatcher_of last_id_world b E = \<lparr>Slots = [], pool = []\<rparr>"
  "DispatchStack last_id_world = []"
  "trace last_id_world = []"
  "HandlerTypes (buses last_id_world b) = Map.empty"
  "NextId (buses last_id_world b) = 2 ^ 64 - 1"
  by (simp_all add: last_id_world_def init_world_def new_bus_def dispatcher_of_def)

text \<open>
  C8 as it is written fails twice. Two buses of one process both issue the identifier 1.
  And the counter is a \<^verbatim>\<open>size_t\<close>: a bus that has issued \<open>2 ^ 64 - 2\<close> identifiers issues
  \<open>2 ^ 64 - 1\<close> and then 0.
\<close>

theorem ids_process_wide_counterexample:
  "map_option (\<lambda>(out, w). trace w) (exec 3 two_buses init_world) =
     Some [Issued 0 1, Issued 1 1] \<and>
   map_option (\<lambda>(out, w). trace w) (exec 3 two_handlers last_id_world) =
     Some [Issued 0 18446744073709551615, Issued 0 0]"
  by (simp add: two_buses_def two_handlers_def run_simps)

section \<open>A removed slot is not invoked again\<close>

lemma never_called_after_removed_append:
  "never_called_after_removed (t @ s) =
     (never_called_after_removed t \<and> never_called_after_removed s \<and>
      (\<forall>b E r. Removed b E r \<in> set t \<longrightarrow> (\<forall>x \<in> set s. \<not> is_call b E r x)))"
proof (induction t rule: never_called_after_removed.induct)
  case 1
  show ?case by simp
next
  case (2 b E r t)
  then show ?case by (simp add: ball_Un) blast
qed simp_all

lemma is_call_not_Call [simp]:
  "\<not> is_call b E r (Removed b' E' r')" "\<not> is_call b E r (Issued b' i)" "\<not> is_call b E r (Unsub b' i)"
  by simp_all

lemma is_active_Subscribe:
  "is_active (TDispatcher_Subscribe i p cb os d) r = (r = length (pool d) \<or> is_active d r)"
  by (auto simp: is_active_def deref_Subscribe split: option.splits dest: deref_Some_length)

lemma is_active_Remove:
  "is_active (snd (TDispatcher_Remove i d)) r =
     (is_active d r \<and> find (has_id d i) (Slots d) \<noteq> Some r)"
  by (auto simp: is_active_def deref_Remove split: option.splits)

lemma has_id_length: "has_id d i r \<Longrightarrow> r < length (pool d)"
  by (auto simp: has_id_def deref_def split: if_splits)

lemma removed_slot_Some:
  assumes "removed_slot w b i = Some (E, r)"
  shows "HandlerTypes (buses w b) i = Some E \<and>
         find (has_id (dispatcher_of w b E) i) (Slots (dispatcher_of w b E)) = Some r \<and>
         r < length (pool (dispatcher_of w b E))"
  using assms
  by (auto simp: removed_slot_def split: option.splits dest!: find_Some_mem has_id_length)

lemma removed_inv_step:
  assumes "prim_step u u'" "removed_inv u"
  shows "removed_inv u'"
  using assms
proof (cases rule: prim_step.cases)
  case (ps_register b E p cb os)
  with assms(2) show ?thesis
    by (auto simp: removed_inv_def register_simps never_called_after_removed_append
        is_active_Subscribe less_Suc_eq)
next
  case (ps_unsubscribe b i)
  show ?thesis
  proof (cases "removed_slot u b i")
    case None
    with assms(2) show ?thesis
      by (auto simp: ps_unsubscribe removed_inv_def Unsubscribe_simps
          never_called_after_removed_append is_active_Remove)
  next
    case (Some a)
    then obtain E r where a: "a = (E, r)" by (cases a)
    from Some a have r: "HandlerTypes (buses u b) i = Some E"
      "find (has_id (dispatcher_of u b E) i) (Slots (dispatcher_of u b E)) = Some r"
      "r < length (pool (dispatcher_of u b E))"
      using removed_slot_Some by blast+
    have t: "trace u' = trace u @ [Unsub b i, Removed b E r]"
      by (simp add: ps_unsubscribe Unsubscribe_simps Some a)
    show ?thesis
      unfolding removed_inv_def
    proof (intro conjI allI impI)
      show "never_called_after_removed (trace u')"
        using assms(2) unfolding t by (simp add: never_called_after_removed_append removed_inv_def)
    next
      fix b' E' r'
      assume "Removed b' E' r' \<in> set (trace u')"
      then consider "b' = b" "E' = E" "r' = r" | "Removed b' E' r' \<in> set (trace u)"
        unfolding t by auto
      then show "r' < length (pool (dispatcher_of u' b' E'))"
      proof cases
        case 1
        with r show ?thesis by (simp add: ps_unsubscribe Unsubscribe_simps)
      next
        case 2
        with assms(2) show ?thesis
          by (auto simp: ps_unsubscribe Unsubscribe_simps removed_inv_def)
      qed
    next
      fix b' E' r'
      assume "Removed b' E' r' \<in> set (trace u')"
      then consider "b' = b" "E' = E" "r' = r" | "Removed b' E' r' \<in> set (trace u)"
        unfolding t by auto
      then show "\<not> is_active (dispatcher_of u' b' E') r'"
      proof cases
        case 1
        with r show ?thesis by (simp add: ps_unsubscribe Unsubscribe_simps is_active_Remove)
      next
        case 2
        with assms(2) show ?thesis
          by (auto simp: ps_unsubscribe Unsubscribe_simps removed_inv_def is_active_Remove)
      qed
    qed
  qed
next
  case (ps_claim b E r slot v ev)
  then have act: "is_active (dispatcher_of u b E) r"
    by (simp add: is_active_def)
  with assms(2) have "Removed b E r \<notin> set (trace u)"
    by (auto simp: removed_inv_def)
  with assms(2) show ?thesis
    by (auto simp: ps_claim(1) removed_inv_def never_called_after_removed_append)
next
  case (ps_call b E r slot v ev)
  then have act: "is_active (dispatcher_of u b E) r"
    by (simp add: is_active_def)
  with assms(2) have "Removed b E r \<notin> set (trace u)"
    by (auto simp: removed_inv_def)
  with assms(2) show ?thesis
    by (auto simp: ps_call(1) removed_inv_def never_called_after_removed_append)
qed (auto simp: removed_inv_def)

lemma removed_inv_init: "removed_inv init_world"
  by (simp add: removed_inv_def)

lemma exec_removed_inv: "exec n p w = Some (out, w') \<Longrightarrow> removed_inv w \<Longrightarrow> removed_inv w'"
  using exec_steps invariant_steps removed_inv_step by blast

text \<open>
  C5. In every run from the initial world, once \<^verbatim>\<open>Remove\<close> has cleared the flag of a
  slot, no delivery invokes that slot again: not the delivery in flight, whose snapshot
  still holds the slot and whose loop reads the flag just before the call, and no later
  one. The slot stays inactive. The removal does not touch a callback that is already
  running: in the run of the witness the first handler unsubscribes a handler the loop has
  not reached, which is then never invoked, and then itself, and still runs to its end.
\<close>

theorem removed_slot_never_invoked:
  assumes "exec n p init_world = Some (out, w)"
  shows "never_called_after_removed (trace w) \<and>
         (\<forall>b E r. Removed b E r \<in> set (trace w) \<longrightarrow> \<not> is_active (dispatcher_of w b E) r)"
  using exec_removed_inv [OF assms removed_inv_init] by (simp add: removed_inv_def)

theorem removed_slot_never_invoked_witness:
  "\<exists>w. exec 8 unsubscribing_handler init_world = Some (Returned, w) \<and>
      trace w =
        [Issued 0 1, Issued 0 2, Issued 0 3,
         Call ByDispatch 1 0 7 0 0, Unsub 0 3, Removed 0 7 2, Unsub 0 1, Removed 0 7 0,
         Call ByDispatch 1 0 7 1 0, Call ByDispatch 1 0 7 1 1] \<and>
      mem w 0 = 1 \<and> mem w 1 = 2 \<and> mem w 2 = 0 \<and>
      never_called_after_removed (trace w) \<and>
      \<not> is_active (dispatcher_of w 0 7) 2 \<and> \<not> is_active (dispatcher_of w 0 7) 0"
proof -
  have "\<exists>w. exec 8 unsubscribing_handler init_world = Some (Returned, w) \<and>
      trace w =
        [Issued 0 1, Issued 0 2, Issued 0 3,
         Call ByDispatch 1 0 7 0 0, Unsub 0 3, Removed 0 7 2, Unsub 0 1, Removed 0 7 0,
         Call ByDispatch 1 0 7 1 0, Call ByDispatch 1 0 7 1 1] \<and>
      mem w 0 = 1 \<and> mem w 1 = 2 \<and> mem w 2 = 0"
    by (simp add: unsubscribing_handler_def run_simps)
  then obtain w where
    run: "exec 8 unsubscribing_handler init_world = Some (Returned, w)"
    and tr: "trace w =
        [Issued 0 1, Issued 0 2, Issued 0 3,
         Call ByDispatch 1 0 7 0 0, Unsub 0 3, Removed 0 7 2, Unsub 0 1, Removed 0 7 0,
         Call ByDispatch 1 0 7 1 0, Call ByDispatch 1 0 7 1 1]"
    and m: "mem w 0 = 1" "mem w 1 = 2" "mem w 2 = 0"
    by blast
  have "Removed 0 7 2 \<in> set (trace w)" "Removed 0 7 0 \<in> set (trace w)"
    by (simp_all add: tr)
  with removed_slot_never_invoked [OF run] show ?thesis
    using run tr m by (intro exI [of _ w]) simp
qed

section \<open>The entry of a fired one-shot handler in the identifier map\<close>

lemma keeps_type_step:
  assumes "prim_step u u'" "keeps_type b i E t0 u"
  shows "keeps_type b i E t0 u'"
proof -
  from assms(2) obtain t where
    t: "trace u = t0 @ t" and k: "Unsub b i \<in> set t \<or> HandlerTypes (buses u b) i = Some E"
    by (auto simp: keeps_type_def)
  from assms(1) show ?thesis
  proof (cases rule: prim_step.cases)
    case (ps_register b' E' p cb os)
    have "trace u' = t0 @ (t @ [Issued b' (NextId (buses u b'))])"
      by (simp add: ps_register register_simps t)
    moreover have "Unsub b i \<in> set t \<or> HandlerTypes (buses u' b) i = Some E"
      using k by (auto simp: ps_register register_simps)
    ultimately show ?thesis
      unfolding keeps_type_def by (metis Un_iff set_append)
  next
    case (ps_unsubscribe b' i')
    obtain s where s: "trace u' = t0 @ (t @ Unsub b' i' # s)"
      by (simp add: ps_unsubscribe Unsubscribe_simps t)
    have "Unsub b i \<in> set (t @ Unsub b' i' # s) \<or> HandlerTypes (buses u' b) i = Some E"
      using k by (auto simp: ps_unsubscribe Unsubscribe_simps)
    with s show ?thesis
      unfolding keeps_type_def by blast
  next
    case (ps_claim b' E' r slot v ev)
    have "trace u' = t0 @ (t @ [Call v (length (DispatchStack u)) b' E' r ev])"
      by (simp add: ps_claim(1) t)
    moreover have "Unsub b i \<in> set t \<or> HandlerTypes (buses u' b) i = Some E"
      using k by (auto simp: ps_claim(1))
    ultimately show ?thesis
      unfolding keeps_type_def by (metis Un_iff set_append)
  next
    case (ps_call b' E' r slot v ev)
    have "trace u' = t0 @ (t @ [Call v (length (DispatchStack u)) b' E' r ev])"
      by (simp add: ps_call(1) t)
    moreover have "Unsub b i \<in> set t \<or> HandlerTypes (buses u' b) i = Some E"
      using k by (auto simp: ps_call(1))
    ultimately show ?thesis
      unfolding keeps_type_def by (metis Un_iff set_append)
  qed (use t k in \<open>auto simp: keeps_type_def\<close>)
qed

lemma exec_keeps_type:
  assumes "exec n p w = Some (out, w')" "HandlerTypes (buses w b) i = Some E"
  shows "keeps_type b i E (trace w) w'"
proof -
  have "keeps_type b i E (trace w) w"
    using assms(2) by (simp add: keeps_type_def)
  with exec_steps [OF assms(1)] show ?thesis
    by (rule invariant_steps) (rule keeps_type_step)
qed

lemma Unsubscribe_stale:
  assumes "HandlerTypes (buses w b) i = Some E"
    and "\<forall>r \<in> set (Slots (dispatcher_of w b E)). \<not> has_id (dispatcher_of w b E) i r"
  shows "buses (TEventSystem_Unsubscribe b i w) =
           (buses w)(b := (buses w b)\<lparr>HandlerTypes := (HandlerTypes (buses w b))(i := None)\<rparr>)"
proof (cases "Dispatchers (buses w b) E")
  case None
  with assms(1) show ?thesis
    by (simp add: TEventSystem_Unsubscribe_def Let_def)
next
  case (Some d)
  then have "dispatcher_of w b E = d"
    by (simp add: dispatcher_of_def)
  with assms(2) have "find (has_id d i) (Slots d) = None"
    by (simp add: find_None_iff)
  with assms(1) Some show ?thesis
    by (simp add: TEventSystem_Unsubscribe_def Let_def)
qed

text \<open>
  C10. Nothing but \<^verbatim>\<open>Unsubscribe\<close> of the identifier erases its entry of \<^verbatim>\<open>HandlerTypes\<close>:
  through any run in which \<^verbatim>\<open>Unsubscribe\<close> is not called for it, the firing of the
  one-shot handler and the cleanup included, the entry stays. And when no slot of the
  dispatcher carries the identifier any more (the slot has been excised), \<^verbatim>\<open>Unsubscribe\<close>
  erases this entry and changes nothing else: every dispatcher, every handler count, the
  frame stack and the client's variables are as before.
\<close>

theorem stale_id_unsubscribe:
  assumes "exec n p w = Some (out, w')"
    and "HandlerTypes (buses w b) i = Some E"
    and "Unsub b i \<notin> set (drop (length (trace w)) (trace w'))"
    and "\<forall>r \<in> set (Slots (dispatcher_of w' b E)). \<not> has_id (dispatcher_of w' b E) i r"
  shows "HandlerTypes (buses w' b) i = Some E \<and>
         buses (TEventSystem_Unsubscribe b i w') =
           (buses w')(b := (buses w' b)\<lparr>HandlerTypes := (HandlerTypes (buses w' b))(i := None)\<rparr>) \<and>
         (\<forall>b' E'. dispatcher_of (TEventSystem_Unsubscribe b i w') b' E' = dispatcher_of w' b' E') \<and>
         (\<forall>b' E'. TEventSystem_GetHandlerCount b' E' (TEventSystem_Unsubscribe b i w') =
                  TEventSystem_GetHandlerCount b' E' w') \<and>
         DispatchStack (TEventSystem_Unsubscribe b i w') = DispatchStack w' \<and>
         mem (TEventSystem_Unsubscribe b i w') = mem w'"
proof -
  from exec_keeps_type [OF assms(1,2)] assms(3)
  have h: "HandlerTypes (buses w' b) i = Some E"
    by (auto simp: keeps_type_def)
  have b: "buses (TEventSystem_Unsubscribe b i w') =
           (buses w')(b := (buses w' b)\<lparr>HandlerTypes := (HandlerTypes (buses w' b))(i := None)\<rparr>)"
    using h assms(4) by (rule Unsubscribe_stale)
  have d: "dispatcher_of (TEventSystem_Unsubscribe b i w') b' E' = dispatcher_of w' b' E'" for b' E'
    by (simp add: dispatcher_of_def b)
  have "TEventSystem_GetHandlerCount b' E' (TEventSystem_Unsubscribe b i w') =
        TEventSystem_GetHandlerCount b' E' w'" for b' E'
    by (simp add: GetHandlerCount_eq d)
  with h b d show ?thesis
    by (simp add: Unsubscribe_simps)
qed

lemma one_shot_registered_simps:
  "HandlerTypes (buses one_shot_registered 0) 1 = Some 7"
  "trace one_shot_registered = [Issued 0 1]"
  by (simp_all add: one_shot_registered_def register_simps)

theorem stale_id_unsubscribe_witness:
  "\<exists>w. exec 2 (Dispatch 0 7 5 Done) one_shot_registered = Some (Returned, w) \<and>
      HandlerTypes (buses one_shot_registered 0) 1 = Some 7 \<and>
      trace w = [Issued 0 1, Call ByDispatch 1 0 7 0 5] \<and>
      Slots (dispatcher_of w 0 7) = [] \<and>
      HandlerTypes (buses w 0) 1 = Some 7 \<and>
      HandlerTypes (buses (TEventSystem_Unsubscribe 0 1 w) 0) 1 = None \<and>
      TEventSystem_GetHandlerCount 0 7 (TEventSystem_Unsubscribe 0 1 w) =
        TEventSystem_GetHandlerCount 0 7 w"
proof -
  have "\<exists>w. exec 2 (Dispatch 0 7 5 Done) one_shot_registered = Some (Returned, w) \<and>
      trace w = [Issued 0 1, Call ByDispatch 1 0 7 0 5] \<and> Slots (dispatcher_of w 0 7) = []"
    by (simp add: run_simps one_shot_registered_def)
  then obtain w where
    run: "exec 2 (Dispatch 0 7 5 Done) one_shot_registered = Some (Returned, w)"
    and tr: "trace w = [Issued 0 1, Call ByDispatch 1 0 7 0 5]"
    and sl: "Slots (dispatcher_of w 0 7) = []"
    by blast
  have no: "Unsub 0 1 \<notin> set (drop (length (trace one_shot_registered)) (trace w))"
    by (simp add: tr one_shot_registered_simps)
  have ex: "\<forall>r \<in> set (Slots (dispatcher_of w 0 7)). \<not> has_id (dispatcher_of w 0 7) 1 r"
    by (simp add: sl)
  from stale_id_unsubscribe [OF run one_shot_registered_simps(1) no ex]
  show ?thesis
    using run tr sl one_shot_registered_simps(1) by (intro exI [of _ w]) simp
qed

section \<open>Subscribe, unsubscribe and scoped connections\<close>

lemma find_unique:
  assumes "x \<in> set xs" "P x" "\<forall>y \<in> set xs. P y \<longrightarrow> x = y"
  shows "find P xs = Some x"
  using assms
proof (induction xs)
  case Nil
  then show ?case by simp
next
  case (Cons a xs)
  show ?case
  proof (cases "P a")
    case True
    with Cons.prems(3) have "x = a" by simp
    with True show ?thesis by simp
  next
    case False
    with Cons.prems(1,2) have "x \<in> set xs" by auto
    moreover have "\<forall>y \<in> set xs. P y \<longrightarrow> x = y"
      using Cons.prems(3) by simp
    ultimately have "find P xs = Some x"
      using Cons.IH Cons.prems(2) by blast
    with False show ?thesis by simp
  qed
qed

lemma deref_Slots_update [simp]: "deref (d\<lparr>Slots := xs\<rparr>) = deref d"
  by (rule ext) (simp add: deref_def)

lemma priority_key_Slots_update [simp]: "priority_key (d\<lparr>Slots := xs\<rparr>) = priority_key d"
  by (rule ext) (simp add: priority_key_def)

lemma Slots_Subscribe:
  "Slots (TDispatcher_Subscribe i p cb os d) =
     sort_key (priority_key (TDispatcher_Subscribe i p cb os d)) (Slots d @ [length (pool d)])"
  by (simp add: TDispatcher_Subscribe_def Let_def)

lemma has_id_Subscribe:
  "has_id (TDispatcher_Subscribe i p cb os d) j r =
     (if r = length (pool d) then j = i else has_id d j r)"
  by (auto simp: has_id_def deref_Subscribe)

lemma find_new_slot:
  assumes "\<forall>r \<in> set (Slots d). \<not> has_id d i r"
  shows "find (has_id (TDispatcher_Subscribe i p cb os d) i)
           (Slots (TDispatcher_Subscribe i p cb os d)) = Some (length (pool d))"
proof (rule find_unique)
  show "length (pool d) \<in> set (Slots (TDispatcher_Subscribe i p cb os d))"
    by (simp add: Slots_Subscribe)
  show "has_id (TDispatcher_Subscribe i p cb os d) i (length (pool d))"
    by (simp add: has_id_Subscribe)
  show "\<forall>y \<in> set (Slots (TDispatcher_Subscribe i p cb os d)).
          has_id (TDispatcher_Subscribe i p cb os d) i y \<longrightarrow> length (pool d) = y"
    using assms by (auto simp: Slots_Subscribe has_id_Subscribe)
qed

lemma filter_active_Subscribe:
  assumes "refs_valid d"
  shows "filter (is_active (TDispatcher_Subscribe i p cb os d)) (Slots d) =
         filter (is_active d) (Slots d)"
  using assms by (intro filter_cong) (auto simp: is_active_Subscribe refs_valid_def)

lemma Count_Subscribe:
  assumes "refs_valid d"
  shows "TDispatcher_Count (TDispatcher_Subscribe i p cb os d) = Suc (TDispatcher_Count d)"
proof -
  let ?d1 = "TDispatcher_Subscribe i p cb os d"
  have "length (filter (is_active ?d1) (Slots ?d1)) =
        length (filter (is_active ?d1) (Slots d @ [length (pool d)]))"
    by (simp only: Slots_Subscribe filter_sort length_sort)
  also have "\<dots> = Suc (length (filter (is_active d) (Slots d)))"
    by (simp add: filter_active_Subscribe [OF assms] is_active_Subscribe)
  finally show ?thesis
    by (simp only: TDispatcher_Count_def)
qed

lemma filter_other_active_Subscribe:
  assumes "refs_valid d"
  shows "filter (\<lambda>x. x \<noteq> length (pool d) \<and> is_active (TDispatcher_Subscribe i p cb os d) x)
           (Slots d) =
         filter (is_active d) (Slots d)"
  using assms by (intro filter_cong) (auto simp: is_active_Subscribe refs_valid_def)

lemma Count_Subscribe_Remove:
  assumes "refs_valid d" "\<forall>r \<in> set (Slots d). \<not> has_id d i r"
  shows "TDispatcher_Count (snd (TDispatcher_Remove i (TDispatcher_Subscribe i p cb os d))) =
         TDispatcher_Count d"
proof -
  let ?d1 = "TDispatcher_Subscribe i p cb os d"
  let ?P = "\<lambda>x. x \<noteq> length (pool d) \<and> is_active ?d1 x"
  have "TDispatcher_Count (snd (TDispatcher_Remove i ?d1)) =
        length (filter ?P (Slots ?d1))"
    by (simp add: TDispatcher_Remove_def find_new_slot [OF assms(2)] TDispatcher_Count_def)
  also have "\<dots> = length (filter ?P (Slots d @ [length (pool d)]))"
    by (simp only: Slots_Subscribe filter_sort length_sort)
  also have "\<dots> = length (filter (is_active d) (Slots d))"
    by (simp add: filter_other_active_Subscribe [OF assms(1)])
  finally show ?thesis
    by (simp only: TDispatcher_Count_def)
qed

lemma NotifyCurrentDispatch_no_frame:
  "no_frame w b E \<Longrightarrow> TEventSystem_NotifyCurrentDispatch run b E i w = Some (Returned, w)"
  by (simp add: TEventSystem_NotifyCurrentDispatch_def no_frame_def)

lemma SubscribeImpl_no_frame:
  assumes "no_frame w b E"
  shows "TEventSystem_SubscribeImpl run b E p cb os w =
           Some (Returned, NextId (buses w b), register_handler b E p cb os w)"
proof -
  have "no_frame (register_handler b E p cb os w) b E"
    using assms by (simp add: no_frame_def register_simps)
  then show ?thesis
    by (simp add: TEventSystem_SubscribeImpl_def NotifyCurrentDispatch_no_frame)
qed

lemma subscribe_unsubscribe_count:
  assumes "no_frame w b E" "id_unused w b E" "refs_valid (dispatcher_of w b E)"
  shows "TEventSystem_SubscribeImpl run b E p cb os w =
           Some (Returned, NextId (buses w b), register_handler b E p cb os w) \<and>
         TEventSystem_GetHandlerCount b E (register_handler b E p cb os w) =
           Suc (TEventSystem_GetHandlerCount b E w) \<and>
         (\<forall>b' E'. TEventSystem_GetHandlerCount b' E'
              (TEventSystem_Unsubscribe b (NextId (buses w b)) (register_handler b E p cb os w)) =
            TEventSystem_GetHandlerCount b' E' w)"
proof (intro conjI allI)
  show "TEventSystem_SubscribeImpl run b E p cb os w =
           Some (Returned, NextId (buses w b), register_handler b E p cb os w)"
    using assms(1) by (rule SubscribeImpl_no_frame)
  show "TEventSystem_GetHandlerCount b E (register_handler b E p cb os w) =
           Suc (TEventSystem_GetHandlerCount b E w)"
    using assms(3) by (simp add: GetHandlerCount_eq register_simps Count_Subscribe)
  fix b' E'
  show "TEventSystem_GetHandlerCount b' E'
              (TEventSystem_Unsubscribe b (NextId (buses w b)) (register_handler b E p cb os w)) =
            TEventSystem_GetHandlerCount b' E' w"
    using assms(2,3)
    by (auto simp: GetHandlerCount_eq register_simps Unsubscribe_simps id_unused_def
        Count_Subscribe_Remove)
qed

lemma destroy_is_Unsubscribe:
  "System c = Some b \<Longrightarrow> ConnId c \<noteq> 0 \<Longrightarrow> destroy c w = TEventSystem_Unsubscribe b (ConnId c) w"
  by (simp add: destroy_def Disconnect_def)

lemma Unsubscribe_twice:
  "buses (TEventSystem_Unsubscribe b i (TEventSystem_Unsubscribe b i w)) =
     buses (TEventSystem_Unsubscribe b i w)"
proof -
  have "HandlerTypes (buses (TEventSystem_Unsubscribe b i w) b) i = None"
    by (simp add: Unsubscribe_simps)
  then show ?thesis
    by (simp add: TEventSystem_Unsubscribe_def [of b i "TEventSystem_Unsubscribe b i w"] Let_def)
qed

lemma Disconnect_twice:
  "Disconnect (fst (Disconnect c w)) w' = (fst (Disconnect c w), w')"
  by (auto simp: Disconnect_def no_handler_def split: option.splits)

lemma refs_valid_Subscribe: "refs_valid d \<Longrightarrow> refs_valid (TDispatcher_Subscribe i p cb os d)"
  by (auto simp: refs_valid_def Slots_Subscribe less_Suc_eq)

lemma Slots_Remove_subset: "set (Slots (snd (TDispatcher_Remove i d))) \<subseteq> set (Slots d)"
  by (auto simp: TDispatcher_Remove_def split: option.splits)

lemma refs_valid_Remove: "refs_valid d \<Longrightarrow> refs_valid (snd (TDispatcher_Remove i d))"
  using Slots_Remove_subset [of i d] by (auto simp: refs_valid_def)

lemma refs_valid_CleanupUnlocked: "refs_valid d \<Longrightarrow> refs_valid (CleanupUnlocked d)"
  by (auto simp: refs_valid_def)

lemma refs_valid_store_active: "refs_valid d \<Longrightarrow> refs_valid (store_active r v d)"
  by (auto simp: refs_valid_def)

lemma wf_inv_step:
  assumes "prim_step u u'" "wf_inv u"
  shows "wf_inv u'"
  using assms
proof (cases rule: prim_step.cases)
  case (ps_register b E p cb os)
  with assms(2) show ?thesis
    by (auto simp: wf_inv_def register_simps refs_valid_Subscribe deref_Subscribe
        split: if_splits)
next
  case (ps_unsubscribe b i)
  with assms(2) show ?thesis
    by (auto simp: wf_inv_def Unsubscribe_simps refs_valid_Remove deref_Remove
        split: if_splits)
next
  case (ps_claim b E r slot v ev)
  with assms(2) show ?thesis
    by (auto simp: wf_inv_def refs_valid_store_active deref_store_active split: if_splits)
next
  case (ps_cleanup b E)
  with assms(2) show ?thesis
    by (auto simp: wf_inv_def refs_valid_CleanupUnlocked)
qed (auto simp: wf_inv_def)

lemma wf_inv_init: "wf_inv init_world"
  by (simp add: wf_inv_def refs_valid_def deref_def)

lemma exec_wf_inv: "exec n p w = Some (out, w') \<Longrightarrow> wf_inv w \<Longrightarrow> wf_inv w'"
  using exec_steps invariant_steps wf_inv_step by blast

lemma wf_id_unused:
  assumes "wf_inv w" "id_inv w" "length (issued_by b w) < 2 ^ 64 - 1"
  shows "id_unused w b E \<and> refs_valid (dispatcher_of w b E)"
proof -
  let ?k = "length (issued_by b w)"
  from assms(2) have iss: "issued_by b w = map (\<lambda>k. k mod 2 ^ 64) [1..<Suc ?k]"
    and nxt: "NextId (buses w b) = Suc ?k mod 2 ^ 64"
    by (auto simp: id_inv_def)
  have "map (\<lambda>k. k mod 2 ^ 64) [1..<Suc ?k] = map (\<lambda>k. k) [1..<Suc ?k]"
    using assms(3) by (intro map_cong) auto
  with iss have "set (issued_by b w) = set [1..<Suc ?k]"
    by simp
  moreover have "NextId (buses w b) = Suc ?k"
    using nxt assms(3) by simp
  ultimately have fresh: "NextId (buses w b) \<notin> set (issued_by b w)"
    by (simp del: upt_Suc)
  have "HandlerTypes (buses w b) (NextId (buses w b)) = None"
    using assms(1) fresh unfolding wf_inv_def by blast
  moreover have "\<not> has_id (dispatcher_of w b E) (NextId (buses w b)) r" for r
  proof
    assume "has_id (dispatcher_of w b E) (NextId (buses w b)) r"
    then obtain slot where "deref (dispatcher_of w b E) r = Some slot"
      "SlotId slot = NextId (buses w b)"
      by (auto simp: has_id_def split: option.splits)
    moreover from this(1) assms(1) have "SlotId slot \<in> set (issued_by b w)"
      unfolding wf_inv_def by blast
    ultimately show False
      using fresh by simp
  qed
  moreover have "refs_valid (dispatcher_of w b E)"
    using assms(1) by (simp add: wf_inv_def)
  ultimately show ?thesis
    by (simp add: id_unused_def)
qed

lemma reachable_id_unused:
  assumes "exec n p init_world = Some (out, w)" "length (issued_by b w) < 2 ^ 64 - 1"
  shows "id_unused w b E \<and> refs_valid (dispatcher_of w b E)"
  using exec_wf_inv [OF assms(1) wf_inv_init] exec_id_inv [OF assms(1) id_inv_init] assms(2)
  by (rule wf_id_unused)


section \<open>Move assignment of a scoped connection\<close>

lemma valid_connection_simps:
  "valid_connection no_handler"
  "valid_connection (TScopedConnection_new b i)"
  "valid_connection c \<Longrightarrow> valid_connection (fst (Disconnect c w))"
  by (auto simp: valid_connection_def no_handler_def TScopedConnection_new_def Disconnect_def
      split: option.splits)

lemma valid_connection_move_assign:
  assumes "\<forall>x. valid_connection (cs x)"
  shows "valid_connection (fst (move_assign this other (cs, w)) x)"
  using assms
  by (auto simp: move_assign_def Let_def valid_connection_def Disconnect_def no_handler_def
      split: prod.splits option.splits if_splits)

text \<open>
  C9. Move assignment between two distinct connection objects unsubscribes what the
  target holds (when its identifier is not 0), then the target holds what the source
  held, the source holds no handler, and no other connection changes. Assigning a
  connection to itself changes nothing.
\<close>

theorem move_assign_transfers:
  "(this \<noteq> other \<and> valid_connection (cs this) \<longrightarrow>
      (case move_assign this other (cs, w) of
         (cs', w') \<Rightarrow>
           cs' this = cs other \<and> cs' other = no_handler \<and>
           (\<forall>x. x \<noteq> this \<and> x \<noteq> other \<longrightarrow> cs' x = cs x) \<and>
           (if ConnId (cs this) = 0 then w' = w
            else \<exists>b. System (cs this) = Some b \<and>
                     w' = TEventSystem_Unsubscribe b (ConnId (cs this)) w))) \<and>
   move_assign this this (cs, w) = (cs, w)"
proof (intro conjI impI)
  show "move_assign this this (cs, w) = (cs, w)"
    by (simp add: move_assign_def)
next
  assume a: "this \<noteq> other \<and> valid_connection (cs this)"
  show "case move_assign this other (cs, w) of
         (cs', w') \<Rightarrow>
           cs' this = cs other \<and> cs' other = no_handler \<and>
           (\<forall>x. x \<noteq> this \<and> x \<noteq> other \<longrightarrow> cs' x = cs x) \<and>
           (if ConnId (cs this) = 0 then w' = w
            else \<exists>b. System (cs this) = Some b \<and>
                     w' = TEventSystem_Unsubscribe b (ConnId (cs this)) w)"
  proof (cases "System (cs this)")
    case None
    with a show ?thesis
      by (simp add: move_assign_def Disconnect_def Let_def no_handler_def valid_connection_def)
  next
    case (Some b)
    with a show ?thesis
      by (simp add: move_assign_def Disconnect_def Let_def no_handler_def)
  qed
qed

theorem move_assign_transfers_witness:
  "(0::nat) \<noteq> 1 \<and> valid_connection (two_connections 0) \<and>
   fst (move_assign 0 1 (two_connections, two_registered)) 0 = TScopedConnection_new 0 2 \<and>
   fst (move_assign 0 1 (two_connections, two_registered)) 1 = no_handler \<and>
   snd (move_assign 0 1 (two_connections, two_registered)) =
     TEventSystem_Unsubscribe 0 1 two_registered \<and>
   TEventSystem_GetHandlerCount 0 7 two_registered = 2 \<and>
   TEventSystem_GetHandlerCount 0 7 (snd (move_assign 0 1 (two_connections, two_registered))) = 1 \<and>
   move_assign 0 0 (two_connections, two_registered) = (two_connections, two_registered)"
proof -
  have v: "valid_connection (two_connections 0)"
    by (simp add: two_connections_def valid_connection_simps)
  have c: "two_connections 0 = TScopedConnection_new 0 1"
    "two_connections 1 = TScopedConnection_new 0 2"
    by (simp_all add: two_connections_def)
  obtain cs' w' where m: "move_assign 0 1 (two_connections, two_registered) = (cs', w')"
    by (cases "move_assign 0 1 (two_connections, two_registered)")
  from move_assign_transfers [of 0 1 two_connections two_registered] v m
  have "cs' 0 = TScopedConnection_new 0 2" "cs' 1 = no_handler"
    "w' = TEventSystem_Unsubscribe 0 1 two_registered"
    by (simp_all add: two_connections_def TScopedConnection_new_def)
  moreover have "TEventSystem_GetHandlerCount 0 7 two_registered = 2"
    "TEventSystem_GetHandlerCount 0 7 (TEventSystem_Unsubscribe 0 1 two_registered) = 1"
    by (simp_all add: two_registered_def run_simps)
  moreover have "move_assign 0 0 (two_connections, two_registered) =
      (two_connections, two_registered)"
    using move_assign_transfers [of 0 1 two_connections two_registered] by simp
  ultimately show ?thesis
    using v m by simp
qed

section \<open>The slot list is sorted, and the delivery follows it\<close>

lemma sorted_wrt_subseq:
  assumes "subseq xs ys" "sorted_wrt R ys"
  shows "sorted_wrt R xs"
  using assms
proof (induction rule: list_emb.induct)
  case (list_emb_Nil ys)
  show ?case by simp
next
  case (list_emb_Cons xs ys y)
  then show ?case by simp
next
  case (list_emb_Cons2 x y xs ys)
  then have "set xs \<subseteq> set ys"
    by (auto dest: list_emb_set)
  with list_emb_Cons2 show ?case
    by auto
qed

lemma sorted_wrt_insort_key:
  assumes "sorted_wrt (\<lambda>x y. f x < f y \<or> (f x = f y \<and> R x y)) ys"
    and "\<forall>y \<in> set ys. f x = f y \<longrightarrow> R x y"
  shows "sorted_wrt (\<lambda>x y. f x < f y \<or> (f x = f y \<and> R x y)) (insort_key f x ys)"
  using assms
proof (induction ys)
  case Nil
  show ?case by simp
next
  case (Cons y ys)
  show ?case
  proof (cases "f x \<le> f y")
    case True
    have "f x < f z \<or> (f x = f z \<and> R x z)" if "z \<in> set (y # ys)" for z
    proof -
      have "f y \<le> f z"
        using that Cons.prems(1) by auto
      with True have "f x \<le> f z" by simp
      with Cons.prems(2) that show ?thesis by fastforce
    qed
    with True Cons.prems(1) show ?thesis
      by (simp del: set_simps)
  next
    case False
    with Cons show ?thesis
      by (auto simp: set_insort_key)
  qed
qed

lemma sorted_wrt_sort_key_stable:
  assumes "sorted_wrt (\<lambda>x y. f x = f y \<longrightarrow> R x y) xs"
  shows "sorted_wrt (\<lambda>x y. f x < f y \<or> (f x = f y \<and> R x y)) (sort_key f xs)"
  using assms
proof (induction xs)
  case Nil
  show ?case by simp
next
  case (Cons x xs)
  then show ?case
    by (simp add: sorted_wrt_insort_key)
qed

lemma priority_key_Subscribe:
  "r < length (pool d) \<Longrightarrow> priority_key (TDispatcher_Subscribe i p cb os d) r = priority_key d r"
  by (simp add: priority_key_def deref_Subscribe)

lemma priority_key_store_active [simp]: "priority_key (store_active r v d) = priority_key d"
  by (rule ext) (auto simp: priority_key_def deref_store_active split: option.splits)

lemma priority_key_CleanupUnlocked [simp]: "priority_key (CleanupUnlocked d) = priority_key d"
  by (rule ext) (simp add: priority_key_def)

lemma before_simps [simp]:
  "before (store_active r v d) = before d"
  "before (CleanupUnlocked d) = before d"
  by (simp_all add: before_def fun_eq_iff)

lemma slots_sorted_Subscribe:
  assumes "slots_sorted d"
  shows "slots_sorted (TDispatcher_Subscribe i p cb os d)"
proof -
  let ?d1 = "TDispatcher_Subscribe i p cb os d"
  let ?f = "priority_key ?d1"
  from assms have v: "\<forall>r \<in> set (Slots d). r < length (pool d)"
    and s: "sorted_wrt (before d) (Slots d)"
    by (auto simp: slots_sorted_def refs_valid_def)
  have "sorted_wrt (\<lambda>x y. ?f x = ?f y \<longrightarrow> x < y) (Slots d)"
    using s
  proof (rule sorted_wrt_mono_rel [rotated])
    fix x y
    assume "x \<in> set (Slots d)" "y \<in> set (Slots d)" "before d x y"
    with v show "?f x = ?f y \<longrightarrow> x < y"
      by (auto simp: before_def priority_key_Subscribe)
  qed
  with v have "sorted_wrt (\<lambda>x y. ?f x = ?f y \<longrightarrow> x < y) (Slots d @ [length (pool d)])"
    by (simp add: sorted_wrt_append)
  then have "sorted_wrt (\<lambda>x y. ?f x < ?f y \<or> (?f x = ?f y \<and> x < y))
      (sort_key ?f (Slots d @ [length (pool d)]))"
    by (rule sorted_wrt_sort_key_stable)
  moreover have "before ?d1 = (\<lambda>x y. ?f x < ?f y \<or> (?f x = ?f y \<and> x < y))"
    by (simp add: before_def fun_eq_iff)
  ultimately have "sorted_wrt (before ?d1) (Slots ?d1)"
    by (simp only: Slots_Subscribe)
  moreover have "refs_valid ?d1"
    using assms by (simp add: slots_sorted_def refs_valid_Subscribe)
  ultimately show ?thesis
    by (simp add: slots_sorted_def)
qed

lemma slots_sorted_CleanupUnlocked: "slots_sorted d \<Longrightarrow> slots_sorted (CleanupUnlocked d)"
  by (simp add: slots_sorted_def refs_valid_CleanupUnlocked sorted_wrt_filter)

lemma slots_sorted_store_active: "slots_sorted d \<Longrightarrow> slots_sorted (store_active r v d)"
  by (simp add: slots_sorted_def refs_valid_store_active)

lemma slots_sorted_Remove: "slots_sorted d \<Longrightarrow> slots_sorted (snd (TDispatcher_Remove i d))"
  by (simp add: TDispatcher_Remove_def slots_sorted_CleanupUnlocked slots_sorted_store_active
      split: option.splits)

lemma sorted_inv_step:
  assumes "prim_step u u'" "sorted_inv u"
  shows "sorted_inv u'"
  using assms
proof (cases rule: prim_step.cases)
  case (ps_register b E p cb os)
  with assms(2) show ?thesis
    by (simp add: sorted_inv_def register_simps slots_sorted_Subscribe)
next
  case (ps_unsubscribe b i)
  with assms(2) show ?thesis
    by (simp add: sorted_inv_def Unsubscribe_simps slots_sorted_Remove)
next
  case (ps_claim b E r slot v ev)
  with assms(2) show ?thesis
    by (simp add: sorted_inv_def slots_sorted_store_active)
next
  case (ps_cleanup b E)
  with assms(2) show ?thesis
    by (simp add: sorted_inv_def slots_sorted_CleanupUnlocked)
qed (auto simp: sorted_inv_def)

lemma sorted_inv_init: "sorted_inv init_world"
  by (simp add: sorted_inv_def slots_sorted_def refs_valid_def)

lemma exec_sorted_inv: "exec n p w = Some (out, w') \<Longrightarrow> sorted_inv w \<Longrightarrow> sorted_inv w'"
  using exec_steps invariant_steps sorted_inv_step by blast

lemma extends_refl [simp]: "extends P w w"
  by (simp add: extends_def)

lemma extends_trans: "extends P w w1 \<Longrightarrow> extends P w1 w2 \<Longrightarrow> extends P w w2"
  by (fastforce simp: extends_def)

lemma extends_same:
  "DispatchStack w' = DispatchStack w \<Longrightarrow> trace w' = trace w \<Longrightarrow> extends P w w'"
  by (simp add: extends_def)

lemma extends_left:
  "DispatchStack w0 = DispatchStack w \<Longrightarrow> trace w0 = trace w \<Longrightarrow> extends P w0 w' \<Longrightarrow>
   extends P w w'"
  by (simp add: extends_def)

lemma balancedD:
  "balanced run \<Longrightarrow> run p w = Some (out, w') \<Longrightarrow>
   extends (loop_depth_ge (Suc (length (DispatchStack w)))) w w'"
  by (auto simp: balanced_def)

lemma loop_depth_ge_mono: "loop_depth_ge (Suc n) x \<Longrightarrow> loop_depth_ge n x"
  by (cases "(Suc n, x)" rule: loop_depth_ge.cases) auto

lemma loop_call_at_deeper: "loop_depth_ge (Suc n) x \<Longrightarrow> loop_call_at n x = []"
  by (cases "(Suc n, x)" rule: loop_depth_ge.cases) auto

lemma own_calls_deeper: "\<forall>x \<in> set t. loop_depth_ge (Suc n) x \<Longrightarrow> own_calls n t = []"
  by (simp add: own_calls_def loop_call_at_deeper)

lemma own_calls_simps [simp]:
  "own_calls n [] = []"
  "own_calls n (t @ s) = own_calls n t @ own_calls n s"
  "own_calls n (x # t) = loop_call_at n x @ own_calls n t"
  by (simp_all add: own_calls_def)

lemma invoke_balanced:
  assumes "balanced run" "invoke run v b E r slot ev w0 = Some (out, w1)"
  shows "DispatchStack w1 = DispatchStack w0 \<and>
         (\<exists>t. trace w1 = trace w0 @ Call v (length (DispatchStack w0)) b E r ev # t \<and>
              (\<forall>x \<in> set t. loop_depth_ge (Suc (length (DispatchStack w0))) x))"
proof -
  let ?w = "observe (Call v (length (DispatchStack w0)) b E r ev) w0"
  from assms(2) have "run (CallbackV slot ev) ?w = Some (out, w1)"
    by (simp add: invoke_def)
  from balancedD [OF assms(1) this] show ?thesis
    by (auto simp: extends_def)
qed

lemma claimed_simps [simp]:
  "DispatchStack (claimed b E r slot w) = DispatchStack w"
  "trace (claimed b E r slot w) = trace w"
  "mem (claimed b E r slot w) = mem w"
  by (simp_all add: claimed_def)

lemma DispatchLoop_Cons_cases [consumes 1, case_names skip thrown returned]:
  assumes "DispatchLoop run b E ev (r # snapshot) nc w = Some (out, nc', w')"
  obtains
    "DispatchLoop run b E ev snapshot nc w = Some (out, nc', w')"
      "\<not> is_active (dispatcher_of w b E) r"
  | slot where "deref (dispatcher_of w b E) r = Some slot" "Active slot"
      "invoke run ByDispatch b E r slot ev (claimed b E r slot w) = Some (Thrown, w')"
      "out = Thrown" "nc' = (nc \<or> IsOneShot slot)"
  | slot w1 where "deref (dispatcher_of w b E) r = Some slot" "Active slot"
      "invoke run ByDispatch b E r slot ev (claimed b E r slot w) = Some (Returned, w1)"
      "DispatchLoop run b E ev snapshot (nc \<or> IsOneShot slot) w1 = Some (out, nc', w')"
proof (cases "deref (dispatcher_of w b E) r")
  case None
  with assms that(1) show ?thesis
    by (simp add: is_active_def)
next
  case (Some slot)
  show ?thesis
  proof (cases "Active slot")
    case False
    with Some assms that(1) show ?thesis
      by (auto simp: is_active_def split: if_splits)
  next
    case True
    with Some assms obtain o1 w1 where
      inv: "invoke run ByDispatch b E r slot ev (claimed b E r slot w) = Some (o1, w1)"
      by (auto simp: claimed_def split: option.splits if_splits)
    show ?thesis
    proof (cases o1)
      case Returned
      with Some True assms inv have
        "DispatchLoop run b E ev snapshot (nc \<or> IsOneShot slot) w1 = Some (out, nc', w')"
        by (auto simp: claimed_def split: if_splits)
      with Some True inv Returned that(3) show ?thesis
        by blast
    next
      case Thrown
      with Some True assms inv have "out = Thrown" "w' = w1" "nc' = (nc \<or> IsOneShot slot)"
        by (auto simp: claimed_def split: if_splits)
      with Some True inv Thrown that(2) show ?thesis
        by blast
    qed
  qed
qed

lemma InvokeSingle_cases [consumes 1, case_names nothing invoked]:
  assumes "TDispatcher_InvokeSingle run b E i ev w = Some (out, w')"
  obtains "out = Returned" "w' = w"
  | r slot w1 where
      "find (has_id (dispatcher_of w b E) i) (Slots (dispatcher_of w b E)) = Some r"
      "deref (dispatcher_of w b E) r = Some slot" "Active slot"
      "invoke run ByInvokeSingle b E r slot ev (claimed b E r slot w) = Some (out, w1)"
      "w' = (if IsOneShot slot then TDispatcher_Cleanup b E w1 else w1)"
proof (cases "find (has_id (dispatcher_of w b E) i) (Slots (dispatcher_of w b E))")
  case None
  with assms that(1) show ?thesis
    by (simp add: TDispatcher_InvokeSingle_def)
next
  case found: (Some r)
  show ?thesis
  proof (cases "deref (dispatcher_of w b E) r")
    case None
    with found assms that(1) show ?thesis
      by (simp add: TDispatcher_InvokeSingle_def)
  next
    case (Some slot)
    show ?thesis
    proof (cases "Active slot")
      case False
      with found Some assms that(1) show ?thesis
        by (auto simp: TDispatcher_InvokeSingle_def split: if_splits)
    next
      case True
      with found Some assms obtain w1 where
        "invoke run ByInvokeSingle b E r slot ev (claimed b E r slot w) = Some (out, w1)"
        "w' = (if IsOneShot slot then TDispatcher_Cleanup b E w1 else w1)"
        by (auto simp: TDispatcher_InvokeSingle_def claimed_def split: if_splits option.splits)
      with found Some True that(2) show ?thesis
        by blast
    qed
  qed
qed

lemma DispatchLoop_balanced:
  assumes "balanced run"
  shows "DispatchLoop run b E ev snapshot nc w = Some (out, nc', w') \<Longrightarrow>
         loop_trace (length (DispatchStack w)) snapshot w w'"
proof (induction snapshot arbitrary: nc w)
  case Nil
  then show ?case by (simp add: loop_trace_def)
next
  case (Cons r snapshot)
  let ?m = "length (DispatchStack w)"
  from Cons.prems show ?case
  proof (cases rule: DispatchLoop_Cons_cases)
    case skip
    from Cons.IH [OF skip(1)] show ?thesis
      by (auto simp: loop_trace_def)
  next
    case (thrown slot)
    from invoke_balanced [OF assms thrown(3)] obtain t where
      "DispatchStack w' = DispatchStack w"
      "trace w' = trace w @ Call ByDispatch ?m b E r ev # t"
      "\<forall>x \<in> set t. loop_depth_ge (Suc ?m) x"
      by auto
    then show ?thesis
      unfolding loop_trace_def
      by (auto simp: own_calls_deeper loop_depth_ge_mono intro!: exI [of _ "Call ByDispatch ?m b E r ev # t"])
  next
    case (returned slot w1)
    from invoke_balanced [OF assms returned(3)] obtain t where
      s1: "DispatchStack w1 = DispatchStack w"
      and t1: "trace w1 = trace w @ Call ByDispatch ?m b E r ev # t"
      and d1: "\<forall>x \<in> set t. loop_depth_ge (Suc ?m) x"
      by auto
    from Cons.IH [OF returned(4)] s1 obtain t2 where
      s2: "DispatchStack w' = DispatchStack w"
      and t2: "trace w' = trace w1 @ t2"
      and d2: "\<forall>x \<in> set t2. loop_depth_ge ?m x"
      and q2: "subseq (own_calls ?m t2) snapshot"
      by (auto simp: loop_trace_def)
    have "trace w' = trace w @ (Call ByDispatch ?m b E r ev # t @ t2)"
      by (simp add: t1 t2)
    moreover have "\<forall>x \<in> set (Call ByDispatch ?m b E r ev # t @ t2). loop_depth_ge ?m x"
      using d1 d2 by (auto simp: loop_depth_ge_mono)
    moreover have "subseq (own_calls ?m (Call ByDispatch ?m b E r ev # t @ t2)) (r # snapshot)"
      using q2 d1 by (simp add: own_calls_deeper)
    ultimately show ?thesis
      unfolding loop_trace_def using s2 by blast
  qed
qed

lemma TDispatcher_Dispatch_balanced:
  assumes "balanced run" "TDispatcher_Dispatch run b E ev w = Some (out, w')"
  shows "loop_trace (length (DispatchStack w)) (Slots (dispatcher_of w b E)) w w'"
proof -
  from assms(2) obtain nc w1 where
    loop: "DispatchLoop run b E ev (Slots (dispatcher_of w b E)) False w = Some (out, nc, w1)"
    and w': "w' = (if nc then TDispatcher_Cleanup b E w1 else w1)"
    by (auto simp: TDispatcher_Dispatch_def split: option.splits)
  from DispatchLoop_balanced [OF assms(1) loop] w' show ?thesis
    by (auto simp: loop_trace_def)
qed

lemma TEventSystem_Dispatch_balanced:
  assumes "balanced run" "TEventSystem_Dispatch run b E ev w = Some (out, w')"
  shows "loop_trace (Suc (length (DispatchStack w))) (Slots (dispatcher_of w b E)) w w'"
proof -
  let ?w2 = "PushFrame \<lparr>FrameSystem = b, EventTypeIndex = E, FrameEvent = ev\<rparr>
               (TEventSystem_GetDispatcher b E w)"
  from assms(2) obtain w3 where
    d: "TDispatcher_Dispatch run b E ev ?w2 = Some (out, w3)" and w': "w' = PopFrame w3"
    by (auto simp: TEventSystem_Dispatch_def Let_def split: option.splits)
  from TDispatcher_Dispatch_balanced [OF assms(1) d] w' show ?thesis
    by (auto simp: loop_trace_def)
qed

lemma loop_trace_extends:
  "loop_trace (Suc (length (DispatchStack w))) snapshot w w' \<Longrightarrow>
   extends (loop_depth_ge (Suc (length (DispatchStack w)))) w w'"
  by (auto simp: loop_trace_def extends_def)

lemma InvokeSingle_balanced:
  assumes "balanced run" "TDispatcher_InvokeSingle run b E i ev w = Some (out, w')"
  shows "extends (loop_depth_ge (Suc (length (DispatchStack w)))) w w'"
  using assms(2)
proof (cases rule: InvokeSingle_cases)
  case nothing
  then show ?thesis by simp
next
  case (invoked r slot w1)
  from invoke_balanced [OF assms(1) invoked(4)] invoked(5) show ?thesis
    by (auto simp: extends_def)
qed

lemma NotifyCurrentDispatch_balanced:
  assumes "balanced run" "TEventSystem_NotifyCurrentDispatch run b E i w = Some (out, w')"
  shows "extends (loop_depth_ge (Suc (length (DispatchStack w)))) w w'"
  using assms
  by (auto simp: TEventSystem_NotifyCurrentDispatch_def split: if_splits option.splits
      dest: InvokeSingle_balanced)

lemma SubscribeImpl_balanced:
  assumes "balanced run" "TEventSystem_SubscribeImpl run b E p cb os w = Some (out, i, w')"
  shows "extends (loop_depth_ge (Suc (length (DispatchStack w)))) w w'"
proof -
  let ?w1 = "register_handler b E p cb os w"
  from assms(2) have
    "TEventSystem_NotifyCurrentDispatch run b E (NextId (buses w b)) ?w1 = Some (out, w')"
    by (auto simp: TEventSystem_SubscribeImpl_def Let_def split: option.splits)
  from NotifyCurrentDispatch_balanced [OF assms(1) this] show ?thesis
    by (auto simp: extends_def register_simps)
qed

lemma exec_body_balanced:
  assumes "balanced run" "exec_body run p w = Some (out, w')"
  shows "extends (loop_depth_ge (Suc (length (DispatchStack w)))) w w'"
proof (cases p)
  case Done
  with assms(2) show ?thesis by simp
next
  case Throw
  with assms(2) show ?thesis by simp
next
  case (Subscribe b E pr cb k)
  with assms(2) obtain o1 i w1 where
    s: "TEventSystem_SubscribeImpl run b E pr cb False w = Some (o1, i, w1)"
    and rest: "o1 = Thrown \<and> w' = w1 \<or> o1 = Returned \<and> run (k i) w1 = Some (out, w')"
    by (auto split: option.splits outcome.splits)
  from SubscribeImpl_balanced [OF assms(1) s] rest assms(1) show ?thesis
    by (auto dest!: balancedD simp: extends_def)
next
  case (SubscribeOnce b E pr cb k)
  with assms(2) obtain o1 i w1 where
    s: "TEventSystem_SubscribeImpl run b E pr cb True w = Some (o1, i, w1)"
    and rest: "o1 = Thrown \<and> w' = w1 \<or> o1 = Returned \<and> run (k i) w1 = Some (out, w')"
    by (auto split: option.splits outcome.splits)
  from SubscribeImpl_balanced [OF assms(1) s] rest assms(1) show ?thesis
    by (auto dest!: balancedD simp: extends_def)
next
  case (Unsubscribe b i k)
  with assms(2) have "run k (TEventSystem_Unsubscribe b i w) = Some (out, w')" by simp
  from balancedD [OF assms(1) this] show ?thesis
    by (auto simp: extends_def Unsubscribe_simps split: option.splits)
next
  case (Dispatch b E ev k)
  with assms(2) obtain o1 w1 where
    s: "TEventSystem_Dispatch run b E ev w = Some (o1, w1)"
    and rest: "o1 = Thrown \<and> w' = w1 \<or> o1 = Returned \<and> run k w1 = Some (out, w')"
    by (auto split: option.splits outcome.splits)
  from loop_trace_extends [OF TEventSystem_Dispatch_balanced [OF assms(1) s]] rest assms(1)
  show ?thesis
    by (auto dest!: balancedD simp: extends_def)
next
  case (GetHandlerCount b E k)
  with assms show ?thesis by (auto dest: balancedD)
next
  case (Catch body k)
  with assms(2) obtain o1 w1 where
    r1: "run body w = Some (o1, w1)" and r2: "run (k o1) w1 = Some (out, w')"
    by (auto split: option.splits)
  from balancedD [OF assms(1) r1] balancedD [OF assms(1) r2] show ?thesis
    by (fastforce simp: extends_def)
next
  case (Local f)
  obtain m k where f: "f (mem w) = (m, k)" by (cases "f (mem w)")
  with Local assms(2) have "run k (w\<lparr>mem := m\<rparr>) = Some (out, w')" by simp
  from balancedD [OF assms(1) this] show ?thesis
    by (auto simp: extends_def)
qed

lemma balanced_exec: "balanced (exec n)"
proof (induction n)
  case 0
  show ?case by (simp add: balanced_def)
next
  case (Suc n)
  then show ?case
    unfolding balanced_def [of "exec (Suc n)"] by (auto dest: exec_body_balanced)
qed

lemma before_iff_priority:
  assumes "deref d r = Some x" "deref d s = Some y"
  shows "before d r s \<longleftrightarrow>
         static_cast_int (Priority x) > static_cast_int (Priority y) \<or>
         (Priority x = Priority y \<and> r < s)"
proof -
  have "static_cast_int p = static_cast_int q \<longleftrightarrow> p = q" for p q
    by (cases p; cases q) simp_all
  with assms show ?thesis
    by (auto simp: before_def priority_key_def)
qed

lemma sorted_inv_register:
  "sorted_inv w \<Longrightarrow> sorted_inv (register_handler b E p cb os w)"
  using ps_register by (rule sorted_inv_step)

lemma DispatchLoop_append:
  "DispatchLoop run b E ev (xs @ ys) nc w =
     (case DispatchLoop run b E ev xs nc w of
        None \<Rightarrow> None
      | Some (Thrown, nc', w') \<Rightarrow> Some (Thrown, nc', w')
      | Some (Returned, nc', w') \<Rightarrow> DispatchLoop run b E ev ys nc' w')"
  by (induction xs arbitrary: nc w) (auto split: option.splits outcome.splits)

lemma prim_step_flags:
  assumes "prim_step w w'"
  shows "length (pool (dispatcher_of w b E)) \<le> length (pool (dispatcher_of w' b E)) \<and>
         (\<forall>r < length (pool (dispatcher_of w b E)).
             is_active (dispatcher_of w' b E) r \<longrightarrow> is_active (dispatcher_of w b E) r)"
  using assms
proof cases
  case (ps_register b' E' p cb os)
  then show ?thesis
    by (auto simp: register_simps is_active_Subscribe)
next
  case (ps_unsubscribe b' i)
  then show ?thesis
    by (auto simp: Unsubscribe_simps is_active_Remove)
qed auto

lemma steps_flags:
  assumes "prim_step\<^sup>*\<^sup>* w w'"
  shows "length (pool (dispatcher_of w b E)) \<le> length (pool (dispatcher_of w' b E)) \<and>
         (\<forall>r < length (pool (dispatcher_of w b E)).
             is_active (dispatcher_of w' b E) r \<longrightarrow> is_active (dispatcher_of w b E) r)"
  using assms
proof (induction rule: rtranclp_induct)
  case base
  show ?case by simp
next
  case (step y z)
  from prim_step_flags [OF step.hyps(2), of b E] step.IH show ?case
    by (meson le_trans less_le_trans)
qed

lemma DispatchLoop_reaches:
  assumes br: "balanced run"
    and l: "DispatchLoop run b E ev (pre @ r # post) nc w = Some (out, nc', w')"
    and p: "DispatchLoop run b E ev pre nc w = Some (Returned, nc0, w0)"
    and d: "deref (dispatcher_of w0 b E) r = Some slot" "Active slot"
  shows "(\<exists>out2 w2. run (CallbackV slot ev)
              (observe (Call ByDispatch (length (DispatchStack w)) b E r ev)
                 (claimed b E r slot w0)) = Some (out2, w2)) \<and>
         r \<in> set (own_calls (length (DispatchStack w)) (new_trace w w'))"
proof -
  let ?m = "length (DispatchStack w)"
  from DispatchLoop_balanced [OF br p] obtain t0 where
    s0: "DispatchStack w0 = DispatchStack w" and t0: "trace w0 = trace w @ t0"
    by (auto simp: loop_trace_def)
  from l p have l': "DispatchLoop run b E ev (r # post) nc0 w0 = Some (out, nc', w')"
    by (simp add: DispatchLoop_append)
  from l' have "\<exists>out2 w2 t1.
      invoke run ByDispatch b E r slot ev (claimed b E r slot w0) = Some (out2, w2) \<and>
      trace w' = trace w0 @ Call ByDispatch ?m b E r ev # t1"
  proof (cases rule: DispatchLoop_Cons_cases)
    case skip
    with d show ?thesis
      by (simp add: is_active_def)
  next
    case (thrown slot')
    with d have i: "invoke run ByDispatch b E r slot ev (claimed b E r slot w0) = Some (Thrown, w')"
      by simp
    from invoke_balanced [OF br i] s0 i show ?thesis
      by auto
  next
    case (returned slot' w1)
    with d have i: "invoke run ByDispatch b E r slot ev (claimed b E r slot w0) = Some (Returned, w1)"
      by simp
    from DispatchLoop_balanced [OF br returned(4)] obtain t2 where "trace w' = trace w1 @ t2"
      by (auto simp: loop_trace_def)
    with invoke_balanced [OF br i] s0 i show ?thesis
      by auto
  qed
  then obtain out2 w2 t1 where
    i: "invoke run ByDispatch b E r slot ev (claimed b E r slot w0) = Some (out2, w2)"
    and t: "trace w' = trace w0 @ Call ByDispatch ?m b E r ev # t1"
    by blast
  from t t0 have "new_trace w w' = t0 @ Call ByDispatch ?m b E r ev # t1"
    by (simp add: new_trace_def)
  then have "r \<in> set (own_calls ?m (new_trace w w'))"
    by simp
  with i s0 show ?thesis
    by (auto simp: invoke_def)
qed

lemma TEventSystem_Dispatch_loop:
  assumes "TEventSystem_Dispatch run b E ev w = Some (out, w')"
  obtains nc' w3 where
    "DispatchLoop run b E ev (Slots (dispatcher_of w b E)) False
       (PushFrame \<lparr>FrameSystem = b, EventTypeIndex = E, FrameEvent = ev\<rparr>
          (TEventSystem_GetDispatcher b E w)) = Some (out, nc', w3)"
    "w' = PopFrame (if nc' then TDispatcher_Cleanup b E w3 else w3)"
  using assms
  by (auto simp: TEventSystem_Dispatch_def TDispatcher_Dispatch_def Let_def
      split: option.splits)

lemma TEventSystem_Dispatch_reaches:
  assumes d: "TEventSystem_Dispatch (exec n) b E ev w = Some (out, w')"
    and sp: "Slots (dispatcher_of w b E) = pre @ r # post"
    and p: "DispatchLoop (exec n) b E ev pre False
       (PushFrame \<lparr>FrameSystem = b, EventTypeIndex = E, FrameEvent = ev\<rparr>
          (TEventSystem_GetDispatcher b E w)) = Some (Returned, nc0, w0)"
    and s: "deref (dispatcher_of w0 b E) r = Some slot" "Active slot"
  shows "(\<exists>out2 w2. exec n (CallbackV slot ev)
              (observe (Call ByDispatch (Suc (length (DispatchStack w))) b E r ev)
                 (claimed b E r slot w0)) = Some (out2, w2)) \<and>
         r \<in> set (own_calls (Suc (length (DispatchStack w))) (new_trace w w'))"
proof -
  let ?w2 = "PushFrame \<lparr>FrameSystem = b, EventTypeIndex = E, FrameEvent = ev\<rparr>
               (TEventSystem_GetDispatcher b E w)"
  from d obtain nc' w3 where
    l: "DispatchLoop (exec n) b E ev (Slots (dispatcher_of w b E)) False ?w2 =
        Some (out, nc', w3)"
    and w': "w' = PopFrame (if nc' then TDispatcher_Cleanup b E w3 else w3)"
    by (rule TEventSystem_Dispatch_loop)
  from w' have "new_trace ?w2 w3 = new_trace w w'"
    by (simp add: new_trace_def)
  with DispatchLoop_reaches [OF balanced_exec l [unfolded sp] p s] show ?thesis
    by simp
qed

lemma TEventSystem_Dispatch_complete:
  assumes d: "TEventSystem_Dispatch (exec n) b E ev w = Some (Returned, w')"
    and rv: "refs_valid (dispatcher_of w b E)"
    and r: "r \<in> set (Slots (dispatcher_of w b E))"
    and a: "is_active (dispatcher_of w' b E) r"
  shows "r \<in> set (own_calls (Suc (length (DispatchStack w))) (new_trace w w'))"
proof -
  let ?w2 = "PushFrame \<lparr>FrameSystem = b, EventTypeIndex = E, FrameEvent = ev\<rparr>
               (TEventSystem_GetDispatcher b E w)"
  from d obtain nc' w3 where
    l: "DispatchLoop (exec n) b E ev (Slots (dispatcher_of w b E)) False ?w2 =
        Some (Returned, nc', w3)"
    and w': "w' = PopFrame (if nc' then TDispatcher_Cleanup b E w3 else w3)"
    by (rule TEventSystem_Dispatch_loop)
  from r obtain pre post where sp: "Slots (dispatcher_of w b E) = pre @ r # post"
    by (auto simp: in_set_conv_decomp)
  from l obtain nc0 w0 where
    p: "DispatchLoop (exec n) b E ev pre False ?w2 = Some (Returned, nc0, w0)"
    and q: "DispatchLoop (exec n) b E ev (r # post) nc0 w0 = Some (Returned, nc', w3)"
    unfolding sp DispatchLoop_append by (auto split: option.splits outcome.splits)
  from rv r have "r < length (pool (dispatcher_of ?w2 b E))"
    by (simp add: refs_valid_def)
  with steps_flags [OF DispatchLoop_steps [OF steps_only_exec p], of b E]
  have len: "r < length (pool (dispatcher_of w0 b E))"
    by simp
  from a w' have "is_active (dispatcher_of w3 b E) r"
    by (simp split: if_splits)
  with steps_flags [OF DispatchLoop_steps [OF steps_only_exec q], of b E] len
  have "is_active (dispatcher_of w0 b E) r"
    by simp
  then obtain slot where "deref (dispatcher_of w0 b E) r = Some slot" "Active slot"
    by (auto simp: is_active_def split: option.splits)
  from TEventSystem_Dispatch_reaches [OF d sp p this] show ?thesis
    by simp
qed

text \<open>
  C4. One publish, from a world whose slot list is in order (as it is in every world a run
  reaches, lemma \<open>exec_sorted_inv\<close>). The callbacks the loop of this delivery invokes are
  a subsequence of the snapshot, the slot list at the start of the delivery, in the order
  of the snapshot. So they run by falling priority, High before Normal before Low, and
  within one priority in the order of subscription (lemma \<open>before_iff_priority\<close> spells
  out \<open>before\<close>). Calls made by nested deliveries and by \<^verbatim>\<open>InvokeSingle\<close> come in between;
  they are not calls of this loop. And the handlers are invoked: whenever the loop has
  come through the slots \<open>pre\<close> of the snapshot and the next slot \<open>r\<close> is active at that
  moment, the callback of \<open>r\<close> is run on the event, in the world the loop has reached (with
  the flag cleared first for a one-shot slot), and \<open>r\<close> is among the calls of the loop; so
  after a publish that returns, every slot of the snapshot that is still active has been
  invoked by it.
\<close>

theorem delivery_in_priority_order:
  assumes "TEventSystem_Dispatch (exec n) b E ev w = Some (out, w')"
    and "slots_sorted (dispatcher_of w b E)"
  shows "trace w' = trace w @ new_trace w w' \<and>
         subseq (own_calls (Suc (length (DispatchStack w))) (new_trace w w'))
           (Slots (dispatcher_of w b E)) \<and>
         sorted_wrt (before (dispatcher_of w b E))
           (own_calls (Suc (length (DispatchStack w))) (new_trace w w')) \<and>
         (\<forall>pre r post nc0 w0 slot.
            Slots (dispatcher_of w b E) = pre @ r # post \<and>
            DispatchLoop (exec n) b E ev pre False
              (PushFrame \<lparr>FrameSystem = b, EventTypeIndex = E, FrameEvent = ev\<rparr>
                 (TEventSystem_GetDispatcher b E w)) = Some (Returned, nc0, w0) \<and>
            deref (dispatcher_of w0 b E) r = Some slot \<and> Active slot \<longrightarrow>
              (\<exists>out2 w2. exec n (CallbackV slot ev)
                   (observe (Call ByDispatch (Suc (length (DispatchStack w))) b E r ev)
                      (claimed b E r slot w0)) = Some (out2, w2)) \<and>
              r \<in> set (own_calls (Suc (length (DispatchStack w))) (new_trace w w'))) \<and>
         (out = Returned \<longrightarrow>
            (\<forall>r \<in> set (Slots (dispatcher_of w b E)).
                is_active (dispatcher_of w' b E) r \<longrightarrow>
                r \<in> set (own_calls (Suc (length (DispatchStack w))) (new_trace w w'))))"
proof -
  from TEventSystem_Dispatch_balanced [OF balanced_exec assms(1)] obtain t where
    t: "trace w' = trace w @ t"
    and s: "subseq (own_calls (Suc (length (DispatchStack w))) t) (Slots (dispatcher_of w b E))"
    by (auto simp: loop_trace_def)
  from t have n: "new_trace w w' = t"
    by (simp add: new_trace_def)
  from assms(2) have "sorted_wrt (before (dispatcher_of w b E)) (Slots (dispatcher_of w b E))"
    by (simp add: slots_sorted_def)
  with s have "sorted_wrt (before (dispatcher_of w b E))
      (own_calls (Suc (length (DispatchStack w))) t)"
    by (rule sorted_wrt_subseq)
  with t s n have order: "trace w' = trace w @ new_trace w w' \<and>
         subseq (own_calls (Suc (length (DispatchStack w))) (new_trace w w'))
           (Slots (dispatcher_of w b E)) \<and>
         sorted_wrt (before (dispatcher_of w b E))
           (own_calls (Suc (length (DispatchStack w))) (new_trace w w'))"
    by simp
  from assms(2) have rv: "refs_valid (dispatcher_of w b E)"
    by (simp add: slots_sorted_def)
  have reach: "(\<exists>out2 w2. exec n (CallbackV slot ev)
                   (observe (Call ByDispatch (Suc (length (DispatchStack w))) b E r ev)
                      (claimed b E r slot w0)) = Some (out2, w2)) \<and>
              r \<in> set (own_calls (Suc (length (DispatchStack w))) (new_trace w w'))"
    if "Slots (dispatcher_of w b E) = pre @ r # post \<and>
            DispatchLoop (exec n) b E ev pre False
              (PushFrame \<lparr>FrameSystem = b, EventTypeIndex = E, FrameEvent = ev\<rparr>
                 (TEventSystem_GetDispatcher b E w)) = Some (Returned, nc0, w0) \<and>
            deref (dispatcher_of w0 b E) r = Some slot \<and> Active slot"
    for pre r post nc0 w0 slot
  proof -
    from that have sp: "Slots (dispatcher_of w b E) = pre @ r # post"
      and p: "DispatchLoop (exec n) b E ev pre False
              (PushFrame \<lparr>FrameSystem = b, EventTypeIndex = E, FrameEvent = ev\<rparr>
                 (TEventSystem_GetDispatcher b E w)) = Some (Returned, nc0, w0)"
      and d: "deref (dispatcher_of w0 b E) r = Some slot" "Active slot"
      by simp_all
    from assms(1) sp p d show ?thesis
      by (rule TEventSystem_Dispatch_reaches)
  qed
  have complete: "r \<in> set (own_calls (Suc (length (DispatchStack w))) (new_trace w w'))"
    if "out = Returned" "r \<in> set (Slots (dispatcher_of w b E))"
      "is_active (dispatcher_of w' b E) r" for r
  proof -
    from assms(1) that(1) have "TEventSystem_Dispatch (exec n) b E ev w = Some (Returned, w')"
      by simp
    then show ?thesis
      using rv that(2,3) by (rule TEventSystem_Dispatch_complete)
  qed
  from order reach complete show ?thesis
    by blast
qed

lemma six_registered_simps:
  "DispatchStack six_registered = []"
  "Slots (dispatcher_of six_registered 0 7) = [1, 3, 2, 5, 0, 4]"
  "map (\<lambda>r. map_option Priority (deref (dispatcher_of six_registered 0 7) r)) [1, 3, 2, 5, 0, 4] =
     [Some High, Some High, Some Normal, Some Normal, Some Low, Some Low]"
  by (simp_all add: six_registered_def run_simps)

lemma six_registered_dispatcher:
  "dispatcher_of six_registered 0 7 =
     \<lparr>Slots = [1, 3, 2, 5, 0, 4],
      pool = map (\<lambda>(i, p, k). \<lparr>SlotId = i, Priority = p, CallbackV = digit k,
                               IsOneShot = False, Active = True\<rparr>)
               [(1, Low, 1), (2, High, 2), (3, Normal, 3), (4, High, 4), (5, Low, 5),
                (6, Normal, 6)]\<rparr>"
  "trace six_registered =
     [Issued 0 1, Issued 0 2, Issued 0 3, Issued 0 4, Issued 0 5, Issued 0 6]"
  "mem six_registered = (\<lambda>x. 0)"
  by (simp_all add: six_registered_def run_simps)

theorem delivery_in_priority_order_witness:
  "\<exists>w'. TEventSystem_Dispatch (exec 2) 0 7 0 six_registered = Some (Returned, w') \<and>
      slots_sorted (dispatcher_of six_registered 0 7) \<and>
      Slots (dispatcher_of six_registered 0 7) = [1, 3, 2, 5, 0, 4] \<and>
      map (\<lambda>r. map_option Priority (deref (dispatcher_of six_registered 0 7) r))
        [1, 3, 2, 5, 0, 4] =
        [Some High, Some High, Some Normal, Some Normal, Some Low, Some Low] \<and>
      own_calls 1 (new_trace six_registered w') = [1, 3, 2, 5, 0, 4] \<and>
      mem w' 0 = 243615 \<and>
      sorted_wrt (before (dispatcher_of six_registered 0 7)) [1, 3, 2, 5, 0, 4] \<and>
      is_active (dispatcher_of w' 0 7) 4 \<and>
      4 \<in> set (own_calls (Suc (length (DispatchStack six_registered)))
                 (new_trace six_registered w')) \<and>
      (\<exists>out2 w2. exec 2 (digit 2 0)
           (observe (Call ByDispatch (Suc (length (DispatchStack six_registered))) 0 7 1 0)
              (claimed 0 7 1
                 \<lparr>SlotId = 2, Priority = High, CallbackV = digit 2, IsOneShot = False,
                    Active = True\<rparr>
                 (PushFrame \<lparr>FrameSystem = 0, EventTypeIndex = 7, FrameEvent = 0\<rparr>
                    (TEventSystem_GetDispatcher 0 7 six_registered)))) = Some (out2, w2))"
proof -
  let ?w0 = "PushFrame \<lparr>FrameSystem = 0, EventTypeIndex = 7, FrameEvent = 0\<rparr>
               (TEventSystem_GetDispatcher 0 7 six_registered)"
  let ?slot = "\<lparr>SlotId = 2, Priority = High, CallbackV = digit 2, IsOneShot = False,
                 Active = True\<rparr>"
  have "sorted_inv six_registered"
    by (simp add: six_registered_def sorted_inv_register sorted_inv_init)
  then have so: "slots_sorted (dispatcher_of six_registered 0 7)"
    by (simp add: sorted_inv_def)
  have "\<exists>w'. TEventSystem_Dispatch (exec 2) 0 7 0 six_registered = Some (Returned, w') \<and>
      own_calls 1 (new_trace six_registered w') = [1, 3, 2, 5, 0, 4] \<and> mem w' 0 = 243615 \<and>
      is_active (dispatcher_of w' 0 7) 4"
    by (simp add: run_simps six_registered_simps(1) six_registered_dispatcher new_trace_def
        digit_def)
  then obtain w' where
    run: "TEventSystem_Dispatch (exec 2) 0 7 0 six_registered = Some (Returned, w')"
    and own: "own_calls 1 (new_trace six_registered w') = [1, 3, 2, 5, 0, 4]"
    and cell: "mem w' 0 = 243615"
    and act: "is_active (dispatcher_of w' 0 7) 4"
    by blast
  note order = delivery_in_priority_order [OF run so]
  note sorted_calls = order [THEN conjunct2, THEN conjunct2, THEN conjunct1]
  note reach = order [THEN conjunct2, THEN conjunct2, THEN conjunct2, THEN conjunct1,
      rule_format, where pre = "[]" and r = 1 and post = "[3, 2, 5, 0, 4]" and ?nc0.0 = False
      and ?w0.0 = ?w0 and slot = ?slot]
  note complete = order [THEN conjunct2, THEN conjunct2, THEN conjunct2, THEN conjunct2,
      rule_format, where r = 4]
  have "own_calls (Suc (length (DispatchStack six_registered)))
      (new_trace six_registered w') = [1, 3, 2, 5, 0, 4]"
    using own by (simp add: six_registered_simps(1))
  with sorted_calls have
    so': "sorted_wrt (before (dispatcher_of six_registered 0 7)) [1, 3, 2, 5, 0, 4]"
    by (simp only:)
  have "4 \<in> set (Slots (dispatcher_of six_registered 0 7))"
    by (simp add: six_registered_simps(2))
  with complete act have
    inv: "4 \<in> set (own_calls (Suc (length (DispatchStack six_registered)))
                 (new_trace six_registered w'))"
    by blast
  have "Slots (dispatcher_of six_registered 0 7) = [] @ 1 # [3, 2, 5, 0, 4] \<and>
      DispatchLoop (exec 2) 0 7 0 [] False ?w0 = Some (Returned, False, ?w0) \<and>
      deref (dispatcher_of ?w0 0 7) 1 = Some ?slot \<and> Active ?slot"
    by (simp add: six_registered_dispatcher deref_def)
  with reach have
    ran: "\<exists>out2 w2. exec 2 (digit 2 0)
           (observe (Call ByDispatch (Suc (length (DispatchStack six_registered))) 0 7 1 0)
              (claimed 0 7 1 ?slot ?w0)) = Some (out2, w2)"
    by simp
  show ?thesis
    by (intro exI [of _ w'] conjI run so own cell so' act inv ran six_registered_simps(2,3))
qed

section \<open>A callback that throws\<close>

lemma settlesD: "settles run \<Longrightarrow> run p w = Some (out, w') \<Longrightarrow> pending w' b E \<subseteq> pending w b E"
  by (auto simp: settles_def)

lemma pending_simps [simp]:
  "pending (observe x w) = pending w"
  "pending (PushFrame f w) = pending w"
  "pending (PopFrame w) = pending w"
  "pending (TEventSystem_GetDispatcher b E w) = pending w"
  "pending (w\<lparr>mem := m\<rparr>) = pending w"
  by (simp_all add: pending_def fun_eq_iff)

lemma pending_Cleanup [simp]:
  "pending (TDispatcher_Cleanup b E w) b' E' = (if b' = b \<and> E' = E then {} else pending w b' E')"
  by (auto simp: pending_def)

lemma pending_claimed_other:
  "b' \<noteq> b \<or> E' \<noteq> E \<Longrightarrow> pending (claimed b E r slot w) b' E' = pending w b' E'"
  by (auto simp: pending_def claimed_def)

lemma pending_claimed_permanent:
  "\<not> IsOneShot slot \<Longrightarrow> pending (claimed b E r slot w) = pending w"
  by (simp add: claimed_def)

lemma pending_register: "pending (register_handler b E p cb os w) b' E' \<subseteq> pending w b' E'"
  by (auto simp: pending_def register_simps Slots_Subscribe is_active_Subscribe)

lemma pending_Unsubscribe: "pending (TEventSystem_Unsubscribe b i w) b' E' \<subseteq> pending w b' E'"
  by (auto simp: pending_def Unsubscribe_simps TDispatcher_Remove_def split: option.splits)

lemma invoke_settles:
  assumes "settles run" "invoke run v b E r slot ev w0 = Some (out, w1)"
  shows "pending w1 b' E' \<subseteq> pending w0 b' E'"
proof -
  from assms(2) have
    "run (CallbackV slot ev) (observe (Call v (length (DispatchStack w0)) b E r ev) w0) =
       Some (out, w1)"
    by (simp add: invoke_def)
  from settlesD [OF assms(1) this] show ?thesis
    by simp
qed

lemma DispatchLoop_settles:
  assumes "settles run"
  shows "DispatchLoop run b E ev snapshot nc w = Some (out, nc', w') \<Longrightarrow>
         (\<forall>b' E'. b' \<noteq> b \<or> E' \<noteq> E \<longrightarrow> pending w' b' E' \<subseteq> pending w b' E') \<and>
         (\<not> nc' \<longrightarrow> pending w' b E \<subseteq> pending w b E) \<and> (nc \<longrightarrow> nc')"
proof (induction snapshot arbitrary: nc w)
  case Nil
  then show ?case by simp
next
  case (Cons r snapshot)
  from Cons.prems show ?case
  proof (cases rule: DispatchLoop_Cons_cases)
    case skip
    from Cons.IH [OF skip(1)] show ?thesis .
  next
    case (thrown slot)
    note i = invoke_settles [OF assms thrown(3)]
    show ?thesis
    proof (intro conjI allI impI)
      fix b' E'
      assume "b' \<noteq> b \<or> E' \<noteq> E"
      with i [of b' E'] show "pending w' b' E' \<subseteq> pending w b' E'"
        by (simp add: pending_claimed_other)
    next
      assume "\<not> nc'"
      with thrown(5) have "\<not> IsOneShot slot" by simp
      with i [of b E] show "pending w' b E \<subseteq> pending w b E"
        by (simp add: pending_claimed_permanent)
    next
      assume nc
      with thrown(5) show nc' by simp
    qed
  next
    case (returned slot w1)
    note i = invoke_settles [OF assms returned(3)]
    note ih = Cons.IH [OF returned(4)]
    show ?thesis
    proof (intro conjI allI impI)
      fix b' E'
      assume o: "b' \<noteq> b \<or> E' \<noteq> E"
      with ih have "pending w' b' E' \<subseteq> pending w1 b' E'" by blast
      also from o i [of b' E'] have "\<dots> \<subseteq> pending w b' E'"
        by (simp add: pending_claimed_other)
      finally show "pending w' b' E' \<subseteq> pending w b' E'" .
    next
      assume n: "\<not> nc'"
      with ih have "\<not> IsOneShot slot" and s: "pending w' b E \<subseteq> pending w1 b E"
        by auto
      with i [of b E] have "pending w1 b E \<subseteq> pending w b E"
        by (simp add: pending_claimed_permanent)
      with s show "pending w' b E \<subseteq> pending w b E" by simp
    next
      assume nc
      with ih show nc' by simp
    qed
  qed
qed

lemma TDispatcher_Dispatch_settles:
  assumes "settles run" "TDispatcher_Dispatch run b E ev w = Some (out, w')"
  shows "pending w' b' E' \<subseteq> pending w b' E'"
proof -
  from assms(2) obtain nc w1 where
    loop: "DispatchLoop run b E ev (Slots (dispatcher_of w b E)) False w = Some (out, nc, w1)"
    and w': "w' = (if nc then TDispatcher_Cleanup b E w1 else w1)"
    by (auto simp: TDispatcher_Dispatch_def split: option.splits)
  from DispatchLoop_settles [OF assms(1) loop] w' show ?thesis
    by (cases "b' = b \<and> E' = E") (auto split: if_splits)
qed

lemma TEventSystem_Dispatch_settles:
  assumes "settles run" "TEventSystem_Dispatch run b E ev w = Some (out, w')"
  shows "pending w' b' E' \<subseteq> pending w b' E'"
proof -
  let ?w2 = "PushFrame \<lparr>FrameSystem = b, EventTypeIndex = E, FrameEvent = ev\<rparr>
               (TEventSystem_GetDispatcher b E w)"
  from assms(2) obtain w3 where
    d: "TDispatcher_Dispatch run b E ev ?w2 = Some (out, w3)" and w': "w' = PopFrame w3"
    by (auto simp: TEventSystem_Dispatch_def Let_def split: option.splits)
  from TDispatcher_Dispatch_settles [OF assms(1) d, of b' E'] w' show ?thesis
    by simp
qed

lemma InvokeSingle_settles:
  assumes "settles run" "TDispatcher_InvokeSingle run b E i ev w = Some (out, w')"
  shows "pending w' b' E' \<subseteq> pending w b' E'"
  using assms(2)
proof (cases rule: InvokeSingle_cases)
  case nothing
  then show ?thesis by simp
next
  case (invoked r slot w1)
  note i = invoke_settles [OF assms(1) invoked(4), of b' E']
  show ?thesis
  proof (cases "IsOneShot slot")
    case True
    with i invoked(5) show ?thesis
      by (cases "b' = b \<and> E' = E") (auto simp: pending_claimed_other)
  next
    case False
    with i invoked(5) show ?thesis
      by (simp add: pending_claimed_permanent)
  qed
qed

lemma NotifyCurrentDispatch_settles:
  assumes "settles run" "TEventSystem_NotifyCurrentDispatch run b E i w = Some (out, w')"
  shows "pending w' b' E' \<subseteq> pending w b' E'"
  using assms
  by (auto simp: TEventSystem_NotifyCurrentDispatch_def split: if_splits option.splits
      dest: InvokeSingle_settles [THEN subsetD])

lemma SubscribeImpl_settles:
  assumes "settles run" "TEventSystem_SubscribeImpl run b E p cb os w = Some (out, i, w')"
  shows "pending w' b' E' \<subseteq> pending w b' E'"
proof -
  let ?w1 = "register_handler b E p cb os w"
  from assms(2) have
    "TEventSystem_NotifyCurrentDispatch run b E (NextId (buses w b)) ?w1 = Some (out, w')"
    by (auto simp: TEventSystem_SubscribeImpl_def Let_def split: option.splits)
  from NotifyCurrentDispatch_settles [OF assms(1) this, of b' E']
    pending_register [of b E p cb os w b' E']
  show ?thesis by simp
qed

lemma exec_body_settles:
  assumes "settles run" "exec_body run p w = Some (out, w')"
  shows "pending w' b' E' \<subseteq> pending w b' E'"
proof (cases p)
  case Done
  with assms(2) show ?thesis by simp
next
  case Throw
  with assms(2) show ?thesis by simp
next
  case (Subscribe b E pr cb k)
  with assms(2) obtain o1 i w1 where
    s: "TEventSystem_SubscribeImpl run b E pr cb False w = Some (o1, i, w1)"
    and rest: "o1 = Thrown \<and> w' = w1 \<or> o1 = Returned \<and> run (k i) w1 = Some (out, w')"
    by (auto split: option.splits outcome.splits)
  from SubscribeImpl_settles [OF assms(1) s, of b' E'] rest assms(1) show ?thesis
    by (auto dest!: settlesD [where b = b' and E = E'])
next
  case (SubscribeOnce b E pr cb k)
  with assms(2) obtain o1 i w1 where
    s: "TEventSystem_SubscribeImpl run b E pr cb True w = Some (o1, i, w1)"
    and rest: "o1 = Thrown \<and> w' = w1 \<or> o1 = Returned \<and> run (k i) w1 = Some (out, w')"
    by (auto split: option.splits outcome.splits)
  from SubscribeImpl_settles [OF assms(1) s, of b' E'] rest assms(1) show ?thesis
    by (auto dest!: settlesD [where b = b' and E = E'])
next
  case (Unsubscribe b i k)
  with assms(2) have "run k (TEventSystem_Unsubscribe b i w) = Some (out, w')" by simp
  from settlesD [OF assms(1) this, of b' E'] pending_Unsubscribe [of b i w b' E']
  show ?thesis by simp
next
  case (Dispatch b E ev k)
  with assms(2) obtain o1 w1 where
    s: "TEventSystem_Dispatch run b E ev w = Some (o1, w1)"
    and rest: "o1 = Thrown \<and> w' = w1 \<or> o1 = Returned \<and> run k w1 = Some (out, w')"
    by (auto split: option.splits outcome.splits)
  from TEventSystem_Dispatch_settles [OF assms(1) s, of b' E'] rest assms(1) show ?thesis
    by (auto dest!: settlesD [where b = b' and E = E'])
next
  case (GetHandlerCount b E k)
  with assms show ?thesis by (auto dest: settlesD [where b = b' and E = E'])
next
  case (Catch body k)
  with assms(2) obtain o1 w1 where
    r1: "run body w = Some (o1, w1)" and r2: "run (k o1) w1 = Some (out, w')"
    by (auto split: option.splits)
  from settlesD [OF assms(1) r1, of b' E'] settlesD [OF assms(1) r2, of b' E']
  show ?thesis by simp
next
  case (Local f)
  obtain m k where f: "f (mem w) = (m, k)" by (cases "f (mem w)")
  with Local assms(2) have "run k (w\<lparr>mem := m\<rparr>) = Some (out, w')" by simp
  from settlesD [OF assms(1) this, of b' E'] show ?thesis
    by simp
qed

lemma settles_exec: "settles (exec n)"
proof (induction n)
  case 0
  show ?case by (simp add: settles_def)
next
  case (Suc n)
  then show ?case
    unfolding settles_def [of "exec (Suc n)"] by (auto dest: exec_body_settles [THEN subsetD])
qed

lemma DispatchLoop_Thrown_append:
  "DispatchLoop run b E ev xs nc w = Some (Thrown, nc', w') \<Longrightarrow>
   DispatchLoop run b E ev (xs @ ys) nc w = Some (Thrown, nc', w')"
proof (induction xs arbitrary: nc w)
  case Nil
  then show ?case by simp
next
  case (Cons r xs)
  from Cons.prems show ?case
  proof (cases rule: DispatchLoop_Cons_cases)
    case skip
    from Cons.IH [OF skip(1)] skip(2) show ?thesis
      by (auto simp: is_active_def split: option.splits)
  next
    case (thrown slot)
    then show ?thesis
      by (auto simp: claimed_def)
  next
    case (returned slot w1)
    from Cons.IH [OF returned(4)] returned(1-3) show ?thesis
      by (auto simp: claimed_def)
  qed
qed

lemma DispatchLoop_throws:
  assumes "DispatchLoop run b E ev pre nc w = Some (Returned, nc0, w0)"
    and "deref (dispatcher_of w0 b E) r = Some slot" "Active slot"
    and "invoke run ByDispatch b E r slot ev (claimed b E r slot w0) = Some (Thrown, w2)"
  shows "DispatchLoop run b E ev (pre @ r # post) nc w =
           Some (Thrown, nc0 \<or> IsOneShot slot, w2)"
  using assms by (auto simp: DispatchLoop_append claimed_def split: if_splits)

lemma one_shot_inv_register:
  "one_shot_inv w \<Longrightarrow> one_shot_inv (register_handler b E p cb os w)"
  using ps_register by (rule one_shot_inv_step)

lemma TEventSystem_Dispatch_one_shot_inv:
  assumes "TEventSystem_Dispatch (exec n) b E ev w = Some (out, w')" "one_shot_inv w"
  shows "one_shot_inv w'"
  using TEventSystem_Dispatch_steps [OF steps_only_exec assms(1)] assms(2)
  by (rule invariant_steps) (rule one_shot_inv_step)

lemma TEventSystem_Dispatch_Thrown:
  assumes "DispatchLoop run b E ev
             (Slots (dispatcher_of w b E)) False
             (PushFrame \<lparr>FrameSystem = b, EventTypeIndex = E, FrameEvent = ev\<rparr>
                (TEventSystem_GetDispatcher b E w)) = Some (Thrown, nc, w')"
  shows "TEventSystem_Dispatch run b E ev w =
           Some (Thrown, PopFrame (if nc then TDispatcher_Cleanup b E w' else w'))"
  using assms by (simp add: TEventSystem_Dispatch_def TDispatcher_Dispatch_def Let_def)

text \<open>
  A callback that throws during a delivery on the bus with the compare-and-set. First
  conjunct: when the loop has come through the slots \<open>pre\<close> and the callback of the next
  slot, active at that moment, throws, the loop leaves with \<open>Thrown\<close> in the world the
  callback left, whatever slots \<open>post\<close> follow: the exception is not held, and the slots
  not yet visited are not invoked. Second conjunct, the same from the result of a prefix:
  once the loop has left with \<open>Thrown\<close>, the slots that follow play no part. Third
  conjunct: the delivery hands \<open>Thrown\<close> to the publisher, and it does so
  after \<^verbatim>\<open>Cleanup\<close> whenever the loop had claimed a one-shot slot. Fourth conjunct, for a
  publish of a run however it ends: the frame stack is that of before, no slot that was
  active before and is inactive after is left in a slot list (a claimed one-shot slot is
  excised), and the trace still holds each one-shot slot at most once, so the world is one
  from which later publishes proceed as from any other.
\<close>

theorem exception_in_delivery:
  "(DispatchLoop run b E ev pre nc w = Some (Returned, nc0, w0) \<and>
    deref (dispatcher_of w0 b E) r = Some slot \<and> Active slot \<and>
    invoke run ByDispatch b E r slot ev (claimed b E r slot w0) = Some (Thrown, w2) \<longrightarrow>
      DispatchLoop run b E ev (pre @ r # post) nc w =
        Some (Thrown, nc0 \<or> IsOneShot slot, w2)) \<and>
   (DispatchLoop run b E ev xs nc w = Some (Thrown, nc', w') \<longrightarrow>
      DispatchLoop run b E ev (xs @ ys) nc w = Some (Thrown, nc', w')) \<and>
   (DispatchLoop run b E ev (Slots (dispatcher_of w b E)) False
        (PushFrame \<lparr>FrameSystem = b, EventTypeIndex = E, FrameEvent = ev\<rparr>
           (TEventSystem_GetDispatcher b E w)) = Some (Thrown, nc', w') \<longrightarrow>
      TEventSystem_Dispatch run b E ev w =
        Some (Thrown, PopFrame (if nc' then TDispatcher_Cleanup b E w' else w'))) \<and>
   (TEventSystem_Dispatch (exec n) b E ev w = Some (out, w1) \<longrightarrow>
      DispatchStack w1 = DispatchStack w \<and>
      (\<forall>b' E' r. is_active (dispatcher_of w b' E') r \<and> \<not> is_active (dispatcher_of w1 b' E') r \<longrightarrow>
          r \<notin> set (Slots (dispatcher_of w1 b' E'))) \<and>
      (one_shot_inv w \<longrightarrow> one_shot_inv w1))"
proof (intro conjI impI allI)
  assume "DispatchLoop run b E ev pre nc w = Some (Returned, nc0, w0) \<and>
    deref (dispatcher_of w0 b E) r = Some slot \<and> Active slot \<and>
    invoke run ByDispatch b E r slot ev (claimed b E r slot w0) = Some (Thrown, w2)"
  then show "DispatchLoop run b E ev (pre @ r # post) nc w =
        Some (Thrown, nc0 \<or> IsOneShot slot, w2)"
    by (blast intro: DispatchLoop_throws)
next
  assume "DispatchLoop run b E ev xs nc w = Some (Thrown, nc', w')"
  then show "DispatchLoop run b E ev (xs @ ys) nc w = Some (Thrown, nc', w')"
    by (rule DispatchLoop_Thrown_append)
next
  assume "DispatchLoop run b E ev (Slots (dispatcher_of w b E)) False
        (PushFrame \<lparr>FrameSystem = b, EventTypeIndex = E, FrameEvent = ev\<rparr>
           (TEventSystem_GetDispatcher b E w)) = Some (Thrown, nc', w')"
  then show "TEventSystem_Dispatch run b E ev w =
        Some (Thrown, PopFrame (if nc' then TDispatcher_Cleanup b E w' else w'))"
    by (rule TEventSystem_Dispatch_Thrown)
next
  assume d: "TEventSystem_Dispatch (exec n) b E ev w = Some (out, w1)"
  from TEventSystem_Dispatch_balanced [OF balanced_exec d]
  show "DispatchStack w1 = DispatchStack w"
    by (simp add: loop_trace_def)
  {
    assume "one_shot_inv w"
    with d show "one_shot_inv w1"
      by (rule TEventSystem_Dispatch_one_shot_inv)
  }
  fix b' E' r
  assume a: "is_active (dispatcher_of w b' E') r \<and> \<not> is_active (dispatcher_of w1 b' E') r"
  show "r \<notin> set (Slots (dispatcher_of w1 b' E'))"
  proof
    assume "r \<in> set (Slots (dispatcher_of w1 b' E'))"
    with a have "r \<in> pending w1 b' E'"
      by (simp add: pending_def)
    with TEventSystem_Dispatch_settles [OF settles_exec d, of b' E'] have "r \<in> pending w b' E'"
      by blast
    with a show False
      by (simp add: pending_def)
  qed
qed

lemma throwing_registered_simps:
  "dispatcher_of throwing_registered 0 7 =
     \<lparr>Slots = [0, 1],
      pool = [\<lparr>SlotId = 1, Priority = Normal,
               CallbackV = (\<lambda>ev. Local (\<lambda>m. (m(0 := m 0 + 1), Throw))),
               IsOneShot = True, Active = True\<rparr>,
              \<lparr>SlotId = 2, Priority = Low,
               CallbackV = (\<lambda>ev. Local (\<lambda>m. (m(1 := m 1 + 1), Done))),
               IsOneShot = False, Active = True\<rparr>]\<rparr>"
  "DispatchStack throwing_registered = []"
  "trace throwing_registered = [Issued 0 1, Issued 0 2]"
  "mem throwing_registered = (\<lambda>x. 0)"
  by (simp_all add: throwing_registered_def run_simps)

theorem exception_in_delivery_witness:
  "\<exists>w1 w2 w3.
      TEventSystem_Dispatch (exec 2) 0 7 0 throwing_registered = Some (Thrown, w1) \<and>
      new_trace throwing_registered w1 = [Call ByDispatch 1 0 7 0 0] \<and>
      mem w1 0 = 1 \<and> mem w1 1 = 0 \<and>
      DispatchStack w1 = DispatchStack throwing_registered \<and>
      is_active (dispatcher_of throwing_registered 0 7) 0 \<and>
      \<not> is_active (dispatcher_of w1 0 7) 0 \<and>
      0 \<notin> set (Slots (dispatcher_of w1 0 7)) \<and>
      Slots (dispatcher_of w1 0 7) = [1] \<and>
      TEventSystem_Dispatch (exec 2) 0 7 1 w1 = Some (Returned, w2) \<and>
      new_trace w1 w2 = [Call ByDispatch 1 0 7 1 1] \<and>
      mem w2 0 = 1 \<and> mem w2 1 = 1 \<and>
      DispatchLoop (exec 2) 0 7 0 [0] False throwing_registered = Some (Thrown, True, w3) \<and>
      DispatchLoop (exec 2) 0 7 0 ([0] @ [1]) False throwing_registered = Some (Thrown, True, w3) \<and>
      invoke (exec 2) ByDispatch 0 7 0 throwing_slot 0
        (claimed 0 7 0 throwing_slot throwing_registered) = Some (Thrown, w3) \<and>
      DispatchLoop (exec 2) 0 7 0 ([] @ 0 # [1]) False throwing_registered =
        Some (Thrown, False \<or> IsOneShot throwing_slot, w3)"
proof -
  have "\<exists>w1. TEventSystem_Dispatch (exec 2) 0 7 0 throwing_registered = Some (Thrown, w1) \<and>
      new_trace throwing_registered w1 = [Call ByDispatch 1 0 7 0 0] \<and>
      mem w1 0 = 1 \<and> mem w1 1 = 0 \<and>
      \<not> is_active (dispatcher_of w1 0 7) 0 \<and>
      Slots (dispatcher_of w1 0 7) = [1] \<and>
      (\<exists>w2. TEventSystem_Dispatch (exec 2) 0 7 1 w1 = Some (Returned, w2) \<and>
         new_trace w1 w2 = [Call ByDispatch 1 0 7 1 1] \<and> mem w2 0 = 1 \<and> mem w2 1 = 1)"
    by (simp add: run_simps throwing_registered_simps new_trace_def)
  then obtain w1 w2 where
    r1: "TEventSystem_Dispatch (exec 2) 0 7 0 throwing_registered = Some (Thrown, w1)"
    and f1: "new_trace throwing_registered w1 = [Call ByDispatch 1 0 7 0 0]"
      "mem w1 0 = 1" "mem w1 1 = 0" "Slots (dispatcher_of w1 0 7) = [1]"
    and i1: "\<not> is_active (dispatcher_of w1 0 7) 0"
    and r2: "TEventSystem_Dispatch (exec 2) 0 7 1 w1 = Some (Returned, w2)"
    and f2: "new_trace w1 w2 = [Call ByDispatch 1 0 7 1 1]" "mem w2 0 = 1" "mem w2 1 = 1"
    by blast
  have i0: "is_active (dispatcher_of throwing_registered 0 7) 0"
    by (simp add: throwing_registered_simps is_active_def deref_def)
  have "\<exists>w3. DispatchLoop (exec 2) 0 7 0 [0] False throwing_registered =
      Some (Thrown, True, w3)"
    by (simp add: run_simps throwing_registered_simps)
  then obtain w3 where
    l: "DispatchLoop (exec 2) 0 7 0 [0] False throwing_registered = Some (Thrown, True, w3)"
    by blast
  note t = exception_in_delivery
    [where run = "exec 2" and n = 2 and b = 0 and E = 7 and ev = 0 and w = throwing_registered
      and xs = "[0]" and ys = "[1]" and nc = False and nc' = True and w' = w3
      and out = Thrown and ?w1.0 = w1 and pre = "[]" and r = 0 and post = "[1]"
      and ?w0.0 = throwing_registered and ?nc0.0 = False and slot = throwing_slot
      and ?w2.0 = w3]
  have d: "deref (dispatcher_of throwing_registered 0 7) 0 = Some throwing_slot"
    "Active throwing_slot"
    by (simp_all add: throwing_registered_simps throwing_slot_def deref_def)
  have v: "invoke (exec 2) ByDispatch 0 7 0 throwing_slot 0
      (claimed 0 7 0 throwing_slot throwing_registered) = Some (Thrown, w3)"
    using l by (simp add: run_simps throwing_registered_simps throwing_slot_def claimed_def)
  have n: "DispatchLoop (exec 2) 0 7 0 [] False throwing_registered =
      Some (Returned, False, throwing_registered)"
    by simp
  from t n d v have
    p: "DispatchLoop (exec 2) 0 7 0 ([] @ 0 # [1]) False throwing_registered =
      Some (Thrown, False \<or> IsOneShot throwing_slot, w3)"
    by blast
  from t l have
    l': "DispatchLoop (exec 2) 0 7 0 ([0] @ [1]) False throwing_registered =
      Some (Thrown, True, w3)"
    by blast
  from t r1 have s: "DispatchStack w1 = DispatchStack throwing_registered"
    by blast
  from t r1 i0 i1 have e: "0 \<notin> set (Slots (dispatcher_of w1 0 7))"
    by blast
  show ?thesis
    by (intro exI [of _ w1] exI [of _ w2] exI [of _ w3] conjI r1 f1 s i0 i1 e r2 f2 l l' v p)
qed


section \<open>Subscribing during a delivery\<close>

lemma find_None_append: "find P xs = None \<Longrightarrow> find P (xs @ ys) = find P ys"
  by (induction xs) (auto split: if_splits)

lemma find_innermost:
  assumes "st = outer @ f # inner" "P f" "\<forall>g \<in> set inner. \<not> P g"
  shows "find P (rev st) = Some f"
proof -
  from assms(3) have "find P (rev inner) = None"
    by (simp add: find_None_iff)
  then have "find P (rev inner @ f # rev outer) = find P (f # rev outer)"
    by (rule find_None_append)
  with assms(1,2) show ?thesis
    by simp
qed

lemma SubscribeImpl_in_flight:
  assumes fr: "find (\<lambda>f. FrameSystem f = b \<and> EventTypeIndex f = E) (rev (DispatchStack w)) = Some f"
    and un: "id_unused w b E"
  shows "TEventSystem_SubscribeImpl run b E p cb os w =
     (case run (cb (FrameEvent f))
             (observe (Call ByInvokeSingle (length (DispatchStack w)) b E
                         (length (pool (dispatcher_of w b E))) (FrameEvent f))
                (claimed b E (length (pool (dispatcher_of w b E)))
                   (new_slot (NextId (buses w b)) p cb os) (register_handler b E p cb os w))) of
        None \<Rightarrow> None
      | Some (out, w') \<Rightarrow>
          Some (out, NextId (buses w b), if os then TDispatcher_Cleanup b E w' else w'))"
proof -
  let ?i = "NextId (buses w b)"
  let ?d = "dispatcher_of w b E"
  let ?w1 = "register_handler b E p cb os w"
  let ?r = "length (pool ?d)"
  from fr have ne: "DispatchStack w \<noteq> []"
    by auto
  from fr have m: "FrameSystem f = b" "EventTypeIndex f = E"
    by (auto simp: find_Some_iff)
  from un have "\<forall>r \<in> set (Slots ?d). \<not> has_id ?d ?i r"
    by (simp add: id_unused_def)
  then have fi: "find (has_id (TDispatcher_Subscribe ?i p cb os ?d) ?i)
       (Slots (TDispatcher_Subscribe ?i p cb os ?d)) = Some ?r"
    by (rule find_new_slot)
  have n: "TEventSystem_NotifyCurrentDispatch run b E ?i ?w1 =
      TDispatcher_InvokeSingle run b E ?i (FrameEvent f) ?w1"
    using ne fr m by (simp add: TEventSystem_NotifyCurrentDispatch_def register_simps)
  have "TDispatcher_InvokeSingle run b E ?i (FrameEvent f) ?w1 =
      (case run (cb (FrameEvent f))
             (observe (Call ByInvokeSingle (length (DispatchStack w)) b E ?r (FrameEvent f))
                (claimed b E ?r (new_slot ?i p cb os) ?w1)) of
        None \<Rightarrow> None
      | Some (out, w') \<Rightarrow> Some (out, if os then TDispatcher_Cleanup b E w' else w'))"
    using fi
    by (auto simp: TDispatcher_InvokeSingle_def Let_def register_simps deref_Subscribe
        invoke_def claimed_def new_slot_def split: option.splits)
  with n show ?thesis
    by (auto simp: TEventSystem_SubscribeImpl_def Let_def split: option.splits)
qed

lemma SubscribeImpl_in_flight_trace:
  assumes fr: "find (\<lambda>f. FrameSystem f = b \<and> EventTypeIndex f = E) (rev (DispatchStack w)) = Some f"
    and un: "id_unused w b E"
    and r: "TEventSystem_SubscribeImpl (exec n) b E p cb os w = Some (out, i, w')"
  shows "DispatchStack w' = DispatchStack w \<and>
     (\<exists>t. trace w' =
            trace w @
            Issued b (NextId (buses w b)) #
            Call ByInvokeSingle (length (DispatchStack w)) b E
              (length (pool (dispatcher_of w b E))) (FrameEvent f) # t \<and>
          (\<forall>x \<in> set t. loop_depth_ge (Suc (length (DispatchStack w))) x))"
proof -
  let ?w0 = "observe (Call ByInvokeSingle (length (DispatchStack w)) b E
                         (length (pool (dispatcher_of w b E))) (FrameEvent f))
                (claimed b E (length (pool (dispatcher_of w b E)))
                   (new_slot (NextId (buses w b)) p cb os) (register_handler b E p cb os w))"
  from r obtain w2 where
    c: "exec n (cb (FrameEvent f)) ?w0 = Some (out, w2)"
    and w': "w' = (if os then TDispatcher_Cleanup b E w2 else w2)"
    unfolding SubscribeImpl_in_flight [OF fr un] by (auto split: option.splits)
  from balancedD [OF balanced_exec c]
  have "extends (loop_depth_ge (Suc (length (DispatchStack w)))) ?w0 w2"
    by (simp add: register_simps)
  then show ?thesis
    unfolding w' by (auto simp: extends_def register_simps)
qed

lemma DispatchLoop_own_calls:
  assumes "DispatchLoop (exec n) b E ev snapshot nc w = Some (out, nc', w')"
  shows "set (own_calls (length (DispatchStack w)) (new_trace w w')) \<subseteq> set snapshot"
proof -
  from DispatchLoop_balanced [OF balanced_exec assms]
  obtain t where t: "trace w' = trace w @ t"
    and s: "subseq (own_calls (length (DispatchStack w)) t) snapshot"
    by (auto simp: loop_trace_def)
  from t have "new_trace w w' = t"
    by (simp add: new_trace_def)
  with s show ?thesis
    by (auto elim: list_emb_set)
qed

text \<open>
  C3. A call of \<^verbatim>\<open>SubscribeImpl\<close> (behind both \<^verbatim>\<open>Subscribe\<close> and \<^verbatim>\<open>SubscribeOnce\<close>) for event
  type \<open>E\<close> on bus \<open>b\<close> while the frame stack holds a frame \<open>f\<close> of \<open>b\<close> and \<open>E\<close> with no such
  frame above it (others may lie below), the next identifier being unused (lemma
  \<open>wf_id_unused\<close>: so it is before the counter wraps). First: the call is the registration
  followed by one invocation of the new callback, through \<^verbatim>\<open>InvokeSingle\<close>, on the event of
  \<open>f\<close>, the innermost matching frame, with the cleanup of a one-shot slot after it; the call
  returns when that callback has. Second, in a run: the frame stack comes back as it was,
  and the log gains the identifier, then this invocation, then only what the new callback
  itself sets off, which holds no call by the loop of the delivery of \<open>f\<close> or of any
  delivery in flight: the handlers those loops have yet to visit wait. Third: the loop of
  a delivery invokes no slot created after it took its snapshot, so the delivery in flight
  does not invoke the new callback a second time.
\<close>

theorem subscribe_during_delivery:
  "(DispatchStack w = outer @ f # inner \<and> FrameSystem f = b \<and> EventTypeIndex f = E \<and>
    (\<forall>g \<in> set inner. \<not> (FrameSystem g = b \<and> EventTypeIndex g = E)) \<and> id_unused w b E \<longrightarrow>
      TEventSystem_SubscribeImpl run b E p cb os w =
        (case run (cb (FrameEvent f))
                (observe (Call ByInvokeSingle (length (DispatchStack w)) b E
                            (length (pool (dispatcher_of w b E))) (FrameEvent f))
                   (claimed b E (length (pool (dispatcher_of w b E)))
                      (new_slot (NextId (buses w b)) p cb os)
                      (register_handler b E p cb os w))) of
           None \<Rightarrow> None
         | Some (out, w') \<Rightarrow>
             Some (out, NextId (buses w b), if os then TDispatcher_Cleanup b E w' else w')) \<and>
      (\<forall>out i w'. TEventSystem_SubscribeImpl (exec n) b E p cb os w = Some (out, i, w') \<longrightarrow>
         DispatchStack w' = DispatchStack w \<and>
         (\<exists>t. trace w' =
                trace w @
                Issued b (NextId (buses w b)) #
                Call ByInvokeSingle (length (DispatchStack w)) b E
                  (length (pool (dispatcher_of w b E))) (FrameEvent f) # t \<and>
              (\<forall>x \<in> set t. loop_depth_ge (Suc (length (DispatchStack w))) x)))) \<and>
   (DispatchLoop (exec n) b E ev snapshot nc w = Some (out', nc', w1) \<and>
    (\<forall>r \<in> set snapshot. r < length (pool (dispatcher_of w b E))) \<longrightarrow>
      (\<forall>r \<in> set (own_calls (length (DispatchStack w)) (new_trace w w1)).
          r < length (pool (dispatcher_of w b E))))"
proof (intro conjI impI allI)
  assume a: "DispatchStack w = outer @ f # inner \<and> FrameSystem f = b \<and> EventTypeIndex f = E \<and>
    (\<forall>g \<in> set inner. \<not> (FrameSystem g = b \<and> EventTypeIndex g = E)) \<and> id_unused w b E"
  then have fr: "find (\<lambda>f. FrameSystem f = b \<and> EventTypeIndex f = E) (rev (DispatchStack w)) =
      Some f"
    by (intro find_innermost [where outer = outer and inner = inner]) auto
  from a have un: "id_unused w b E"
    by simp
  from fr un show "TEventSystem_SubscribeImpl run b E p cb os w =
        (case run (cb (FrameEvent f))
                (observe (Call ByInvokeSingle (length (DispatchStack w)) b E
                            (length (pool (dispatcher_of w b E))) (FrameEvent f))
                   (claimed b E (length (pool (dispatcher_of w b E)))
                      (new_slot (NextId (buses w b)) p cb os)
                      (register_handler b E p cb os w))) of
           None \<Rightarrow> None
         | Some (out, w') \<Rightarrow>
             Some (out, NextId (buses w b), if os then TDispatcher_Cleanup b E w' else w'))"
    by (rule SubscribeImpl_in_flight)
  fix out i w'
  assume "TEventSystem_SubscribeImpl (exec n) b E p cb os w = Some (out, i, w')"
  from SubscribeImpl_in_flight_trace [OF fr un this]
  show "DispatchStack w' = DispatchStack w"
    and "\<exists>t. trace w' =
                trace w @
                Issued b (NextId (buses w b)) #
                Call ByInvokeSingle (length (DispatchStack w)) b E
                  (length (pool (dispatcher_of w b E))) (FrameEvent f) # t \<and>
              (\<forall>x \<in> set t. loop_depth_ge (Suc (length (DispatchStack w))) x)"
    by blast+
next
  assume "DispatchLoop (exec n) b E ev snapshot nc w = Some (out', nc', w1) \<and>
    (\<forall>r \<in> set snapshot. r < length (pool (dispatcher_of w b E)))"
  with DispatchLoop_own_calls [of n b E ev snapshot nc w out' nc' w1]
  show "\<forall>r \<in> set (own_calls (length (DispatchStack w)) (new_trace w w1)).
          r < length (pool (dispatcher_of w b E))"
    by blast
qed

lemma subscribing_registered_simps:
  "dispatcher_of subscribing_registered 0 7 =
     \<lparr>Slots = [0, 1],
      pool = [\<lparr>SlotId = 1, Priority = High,
               CallbackV = (\<lambda>ev. Subscribe 0 7 Normal recorder (\<lambda>i. Done)),
               IsOneShot = False, Active = True\<rparr>,
              \<lparr>SlotId = 2, Priority = Low,
               CallbackV = (\<lambda>ev. Local (\<lambda>m. (m(1 := ev), Done))),
               IsOneShot = False, Active = True\<rparr>]\<rparr>"
  "DispatchStack subscribing_registered = []"
  "trace subscribing_registered = [Issued 0 1, Issued 0 2]"
  "mem subscribing_registered = (\<lambda>x. 0)"
  "NextId (buses subscribing_registered 0) = 3"
  "HandlerTypes (buses subscribing_registered 0) 3 = None"
  by (simp_all add: subscribing_registered_def run_simps)

lemma nested_frames_simps:
  "dispatcher_of nested_frames 0 7 = dispatcher_of subscribing_registered 0 7"
  "DispatchStack nested_frames =
     [\<lparr>FrameSystem = 0, EventTypeIndex = 7, FrameEvent = 5\<rparr>,
      \<lparr>FrameSystem = 0, EventTypeIndex = 7, FrameEvent = 6\<rparr>,
      \<lparr>FrameSystem = 0, EventTypeIndex = 8, FrameEvent = 9\<rparr>]"
  "trace nested_frames = [Issued 0 1, Issued 0 2]"
  "mem nested_frames = (\<lambda>x. 0)"
  "NextId (buses nested_frames 0) = 3"
  "HandlerTypes (buses nested_frames 0) 3 = None"
  by (simp_all add: nested_frames_def subscribing_registered_simps)

theorem subscribe_during_delivery_witness:
  "\<exists>w1 w2 w3.
      TEventSystem_Dispatch (exec 3) 0 7 5 subscribing_registered = Some (Returned, w1) \<and>
      new_trace subscribing_registered w1 =
        [Call ByDispatch 1 0 7 0 5, Issued 0 3, Call ByInvokeSingle 1 0 7 2 5,
         Call ByDispatch 1 0 7 1 5] \<and>
      Slots (dispatcher_of w1 0 7) = [0, 2, 1] \<and>
      mem w1 0 = 5 \<and>
      TEventSystem_SubscribeImpl (exec 2) 0 7 Normal recorder True nested_frames =
        Some (Returned, 3, w2) \<and>
      new_trace nested_frames w2 = [Issued 0 3, Call ByInvokeSingle 3 0 7 2 6] \<and>
      mem w2 0 = 6 \<and>
      DispatchStack w2 = DispatchStack nested_frames \<and>
      DispatchLoop (exec 3) 0 7 5 [0, 1] False
        (PushFrame \<lparr>FrameSystem = 0, EventTypeIndex = 7, FrameEvent = 5\<rparr> subscribing_registered) =
        Some (Returned, False, w3) \<and>
      length (pool (dispatcher_of w3 0 7)) = 3 \<and>
      list_all (\<lambda>r. r < 2)
        (own_calls 1
           (new_trace
              (PushFrame \<lparr>FrameSystem = 0, EventTypeIndex = 7, FrameEvent = 5\<rparr>
                 subscribing_registered) w3))"
proof -
  let ?f1 = "\<lparr>FrameSystem = 0, EventTypeIndex = 7, FrameEvent = 5\<rparr>"
  let ?f2 = "\<lparr>FrameSystem = 0, EventTypeIndex = 7, FrameEvent = 6\<rparr>"
  let ?f3 = "\<lparr>FrameSystem = 0, EventTypeIndex = 8, FrameEvent = 9\<rparr>"
  let ?w = "PushFrame ?f1 subscribing_registered"
  have "\<exists>w1. TEventSystem_Dispatch (exec 3) 0 7 5 subscribing_registered = Some (Returned, w1) \<and>
      new_trace subscribing_registered w1 =
        [Call ByDispatch 1 0 7 0 5, Issued 0 3, Call ByInvokeSingle 1 0 7 2 5,
         Call ByDispatch 1 0 7 1 5] \<and>
      Slots (dispatcher_of w1 0 7) = [0, 2, 1] \<and> mem w1 0 = 5"
    by (simp add: run_simps subscribing_registered_simps new_trace_def recorder_def)
  then obtain w1 where
    r1: "TEventSystem_Dispatch (exec 3) 0 7 5 subscribing_registered = Some (Returned, w1)"
    and f1: "new_trace subscribing_registered w1 =
        [Call ByDispatch 1 0 7 0 5, Issued 0 3, Call ByInvokeSingle 1 0 7 2 5,
         Call ByDispatch 1 0 7 1 5]"
      "Slots (dispatcher_of w1 0 7) = [0, 2, 1]" "mem w1 0 = 5"
    by blast
  have "\<exists>w3. DispatchLoop (exec 3) 0 7 5 [0, 1] False ?w = Some (Returned, False, w3) \<and>
      length (pool (dispatcher_of w3 0 7)) = 3"
    by (simp add: run_simps subscribing_registered_simps recorder_def)
  then obtain w3 where
    r3: "DispatchLoop (exec 3) 0 7 5 [0, 1] False ?w = Some (Returned, False, w3)"
    and f3: "length (pool (dispatcher_of w3 0 7)) = 3"
    by blast
  have un: "id_unused nested_frames 0 7"
    by (simp add: id_unused_def nested_frames_simps subscribing_registered_simps has_id_def
        deref_def)
  have h: "DispatchStack nested_frames = [?f1] @ ?f2 # [?f3] \<and>
      FrameSystem ?f2 = 0 \<and> EventTypeIndex ?f2 = 7 \<and>
      (\<forall>g \<in> set [?f3]. \<not> (FrameSystem g = 0 \<and> EventTypeIndex g = 7)) \<and>
      id_unused nested_frames 0 7"
    using un by (simp add: nested_frames_simps)
  note t = subscribe_during_delivery
    [where w = nested_frames and outer = "[?f1]" and f = ?f2 and inner = "[?f3]"
      and b = 0 and E = 7 and p = Normal and cb = recorder and os = True and n = 2
      and run = "exec 2", THEN conjunct1, THEN mp, OF h]
  have "\<exists>w2. TEventSystem_SubscribeImpl (exec 2) 0 7 Normal recorder True nested_frames =
        Some (Returned, 3, w2) \<and>
      new_trace nested_frames w2 = [Issued 0 3, Call ByInvokeSingle 3 0 7 2 6] \<and>
      mem w2 0 = 6"
    unfolding t [THEN conjunct1]
    by (simp add: run_simps nested_frames_simps subscribing_registered_simps new_trace_def
        recorder_def claimed_def new_slot_def)
  then obtain w2 where
    r2: "TEventSystem_SubscribeImpl (exec 2) 0 7 Normal recorder True nested_frames =
        Some (Returned, 3, w2)"
    and f2: "new_trace nested_frames w2 = [Issued 0 3, Call ByInvokeSingle 3 0 7 2 6]"
      "mem w2 0 = 6"
    by blast
  from t [THEN conjunct2] r2 have s: "DispatchStack w2 = DispatchStack nested_frames"
    by blast
  have o: "list_all (\<lambda>r. r < 2) (own_calls 1 (new_trace ?w w3))"
    using subscribe_during_delivery
      [where n = 3 and b = 0 and E = 7 and ev = 5 and snapshot = "[0, 1]" and nc = False
        and w = ?w and out' = Returned and nc' = False and ?w1.0 = w3, THEN conjunct2] r3
    by (simp add: subscribing_registered_simps list_all_iff numeral_2_eq_2)
  show ?thesis
    by (intro exI [of _ w1] exI [of _ w2] exI [of _ w3] conjI r1 f1 r2 f2 s r3 f3 o)
qed


section \<open>The round trip inside a delivery\<close>

lemma Unsubscribe_buses_cong:
  assumes "buses w2 = buses w0"
  shows "buses (TEventSystem_Unsubscribe b i w2) = buses (TEventSystem_Unsubscribe b i w0)"
  using assms
  by (simp add: TEventSystem_Unsubscribe_def Let_def observe_def update_dispatcher_def
      dispatcher_of_def split: option.splits)

lemma GetHandlerCount_buses_cong:
  "buses w2 = buses w0 \<Longrightarrow>
   TEventSystem_GetHandlerCount b E w2 = TEventSystem_GetHandlerCount b E w0"
  by (simp add: TEventSystem_GetHandlerCount_def)

lemma register_Unsubscribe_count:
  assumes "id_unused w b E" "refs_valid (dispatcher_of w b E)"
  shows "TEventSystem_GetHandlerCount b' E'
           (TEventSystem_Unsubscribe b (NextId (buses w b)) (register_handler b E p cb os w)) =
         TEventSystem_GetHandlerCount b' E' w"
  using assms
  by (auto simp: GetHandlerCount_eq register_simps Unsubscribe_simps id_unused_def
      Count_Subscribe_Remove)

lemma claimed_Cleanup_Unsubscribe_count:
  assumes un: "id_unused w b E" and rv: "refs_valid (dispatcher_of w b E)"
  shows "TEventSystem_GetHandlerCount b' E'
           (TEventSystem_Unsubscribe b (NextId (buses w b))
              (TDispatcher_Cleanup b E
                 (update_dispatcher b E (store_active (length (pool (dispatcher_of w b E))) False)
                    (register_handler b E p cb True w)))) =
         TEventSystem_GetHandlerCount b' E' w"
proof -
  let ?i = "NextId (buses w b)"
  let ?d = "dispatcher_of w b E"
  let ?r = "length (pool ?d)"
  let ?d1 = "TDispatcher_Subscribe ?i p cb True ?d"
  from un have fresh: "\<forall>r \<in> set (Slots ?d). \<not> has_id ?d ?i r"
    by (simp add: id_unused_def)
  then have f: "find (has_id ?d1 ?i) (Slots ?d1) = Some ?r"
    by (rule find_new_slot)
  then have c: "CleanupUnlocked (store_active ?r False ?d1) = snd (TDispatcher_Remove ?i ?d1)"
    by (simp add: TDispatcher_Remove_def)
  have "\<forall>x \<in> set (Slots (snd (TDispatcher_Remove ?i ?d1))).
      \<not> has_id (snd (TDispatcher_Remove ?i ?d1)) ?i x"
    using fresh f by (auto simp: TDispatcher_Remove_def Slots_Subscribe has_id_Subscribe)
  then have n: "find (has_id (snd (TDispatcher_Remove ?i ?d1)) ?i)
      (Slots (snd (TDispatcher_Remove ?i ?d1))) = None"
    by (simp add: find_None_iff)
  have "TDispatcher_Remove ?i (snd (TDispatcher_Remove ?i ?d1)) =
      (False, snd (TDispatcher_Remove ?i ?d1))"
    using n by (simp add: TDispatcher_Remove_def [of ?i "snd (TDispatcher_Remove ?i ?d1)"])
  with c show ?thesis
    using rv fresh un
    by (auto simp: GetHandlerCount_eq register_simps Unsubscribe_simps Count_Subscribe_Remove
        id_unused_def)
qed

lemma SubscribeImpl_round_trip_in_flight:
  assumes fr: "find (\<lambda>f. FrameSystem f = b \<and> EventTypeIndex f = E) (rev (DispatchStack w)) = Some f"
    and un: "id_unused w b E" and rv: "refs_valid (dispatcher_of w b E)"
    and cb: "run (cb (FrameEvent f))
               (observe (Call ByInvokeSingle (length (DispatchStack w)) b E
                           (length (pool (dispatcher_of w b E))) (FrameEvent f))
                  (claimed b E (length (pool (dispatcher_of w b E)))
                     (new_slot (NextId (buses w b)) p cb os)
                     (register_handler b E p cb os w))) = Some (Returned, w2)"
    and same: "buses w2 =
        buses (claimed b E (length (pool (dispatcher_of w b E)))
                 (new_slot (NextId (buses w b)) p cb os) (register_handler b E p cb os w))"
  shows "TEventSystem_SubscribeImpl run b E p cb os w =
           Some (Returned, NextId (buses w b),
                 if os then TDispatcher_Cleanup b E w2 else w2) \<and>
         (\<forall>b' E'. TEventSystem_GetHandlerCount b' E'
              (TEventSystem_Unsubscribe b (NextId (buses w b))
                 (if os then TDispatcher_Cleanup b E w2 else w2)) =
            TEventSystem_GetHandlerCount b' E' w)"
proof (intro conjI allI)
  show "TEventSystem_SubscribeImpl run b E p cb os w =
           Some (Returned, NextId (buses w b), if os then TDispatcher_Cleanup b E w2 else w2)"
    by (simp add: SubscribeImpl_in_flight [OF fr un] cb)
  fix b' E'
  let ?i = "NextId (buses w b)"
  let ?r = "length (pool (dispatcher_of w b E))"
  show "TEventSystem_GetHandlerCount b' E'
          (TEventSystem_Unsubscribe b ?i (if os then TDispatcher_Cleanup b E w2 else w2)) =
        TEventSystem_GetHandlerCount b' E' w"
  proof (cases os)
    case False
    with same have "buses w2 = buses (register_handler b E p cb os w)"
      by (simp add: claimed_def new_slot_def)
    then have "TEventSystem_GetHandlerCount b' E' (TEventSystem_Unsubscribe b ?i w2) =
        TEventSystem_GetHandlerCount b' E'
          (TEventSystem_Unsubscribe b ?i (register_handler b E p cb os w))"
      by (intro GetHandlerCount_buses_cong Unsubscribe_buses_cong)
    with False show ?thesis
      by (simp add: register_Unsubscribe_count [OF un rv])
  next
    case True
    let ?w0 = "update_dispatcher b E (store_active ?r False) (register_handler b E p cb True w)"
    from True same have "buses w2 = buses ?w0"
      by (simp add: claimed_def new_slot_def)
    then have "buses (TDispatcher_Cleanup b E w2) = buses (TDispatcher_Cleanup b E ?w0)"
      by (simp add: TDispatcher_Cleanup_def update_dispatcher_def dispatcher_of_def)
    then have "TEventSystem_GetHandlerCount b' E'
          (TEventSystem_Unsubscribe b ?i (TDispatcher_Cleanup b E w2)) =
        TEventSystem_GetHandlerCount b' E'
          (TEventSystem_Unsubscribe b ?i (TDispatcher_Cleanup b E ?w0))"
      by (intro GetHandlerCount_buses_cong Unsubscribe_buses_cong)
    with True show ?thesis
      by (simp add: claimed_Cleanup_Unsubscribe_count [OF un rv])
  qed
qed

text \<open>
  C7, as the code has it. \<^verbatim>\<open>Subscribe\<close> inside a delivery of \<open>E\<close> runs the new callback
  before it returns, so what the handler count is after the round trip depends on what
  that callback does. Round trip: in a world where the next identifier is unused (as it
  is in every world a run reaches before the counter wraps, lemma \<open>wf_id_unused\<close>),
  when no delivery of \<open>E\<close> on the bus is in flight, \<^verbatim>\<open>Subscribe\<close> returns that identifier,
  the handler count of \<open>E\<close> goes up by one, and \<^verbatim>\<open>Unsubscribe\<close> of the identifier brings
  every handler count back to its value before; and when a delivery of \<open>E\<close> on the bus is
  in flight, the same holds of every handler count after \<^verbatim>\<open>Unsubscribe\<close> provided the new
  callback, run on the event of the innermost such delivery, returns and leaves the buses
  as it found them. Destroying a valid connection with a non-zero identifier
  is \<^verbatim>\<open>Unsubscribe\<close> of that identifier on its bus. A second \<^verbatim>\<open>Unsubscribe\<close> of the same
  identifier changes no bus and no handler count, and a second \<^verbatim>\<open>Disconnect\<close> changes
  nothing at all.
\<close>

theorem subscribe_unsubscribe_round_trip:
  "(no_frame w b E \<and> id_unused w b E \<and> refs_valid (dispatcher_of w b E) \<longrightarrow>
      TEventSystem_SubscribeImpl run b E p cb os w =
        Some (Returned, NextId (buses w b), register_handler b E p cb os w) \<and>
      TEventSystem_GetHandlerCount b E (register_handler b E p cb os w) =
        Suc (TEventSystem_GetHandlerCount b E w) \<and>
      (\<forall>b' E'. TEventSystem_GetHandlerCount b' E'
           (TEventSystem_Unsubscribe b (NextId (buses w b)) (register_handler b E p cb os w)) =
         TEventSystem_GetHandlerCount b' E' w)) \<and>
   (find (\<lambda>f. FrameSystem f = b \<and> EventTypeIndex f = E) (rev (DispatchStack w)) = Some f \<and>
    id_unused w b E \<and> refs_valid (dispatcher_of w b E) \<and>
    run (cb (FrameEvent f))
      (observe (Call ByInvokeSingle (length (DispatchStack w)) b E
                  (length (pool (dispatcher_of w b E))) (FrameEvent f))
         (claimed b E (length (pool (dispatcher_of w b E)))
            (new_slot (NextId (buses w b)) p cb os)
            (register_handler b E p cb os w))) = Some (Returned, w2) \<and>
    buses w2 =
      buses (claimed b E (length (pool (dispatcher_of w b E)))
               (new_slot (NextId (buses w b)) p cb os) (register_handler b E p cb os w)) \<longrightarrow>
      TEventSystem_SubscribeImpl run b E p cb os w =
        Some (Returned, NextId (buses w b), if os then TDispatcher_Cleanup b E w2 else w2) \<and>
      (\<forall>b' E'. TEventSystem_GetHandlerCount b' E'
           (TEventSystem_Unsubscribe b (NextId (buses w b))
              (if os then TDispatcher_Cleanup b E w2 else w2)) =
         TEventSystem_GetHandlerCount b' E' w)) \<and>
   (valid_connection c \<and> ConnId c \<noteq> 0 \<longrightarrow>
      (\<exists>b'. System c = Some b' \<and> destroy c w = TEventSystem_Unsubscribe b' (ConnId c) w)) \<and>
   buses (TEventSystem_Unsubscribe b i (TEventSystem_Unsubscribe b i w)) =
     buses (TEventSystem_Unsubscribe b i w) \<and>
   (\<forall>b' E'. TEventSystem_GetHandlerCount b' E'
        (TEventSystem_Unsubscribe b i (TEventSystem_Unsubscribe b i w)) =
      TEventSystem_GetHandlerCount b' E' (TEventSystem_Unsubscribe b i w)) \<and>
   Disconnect (fst (Disconnect c w)) w' = (fst (Disconnect c w), w')"
proof (intro conjI impI allI)
  fix b' E'
  show "TEventSystem_GetHandlerCount b' E'
        (TEventSystem_Unsubscribe b i (TEventSystem_Unsubscribe b i w)) =
      TEventSystem_GetHandlerCount b' E' (TEventSystem_Unsubscribe b i w)"
    by (simp add: TEventSystem_GetHandlerCount_def Unsubscribe_twice)
next
  assume "valid_connection c \<and> ConnId c \<noteq> 0"
  then obtain b' where "System c = Some b'" "ConnId c \<noteq> 0"
    by (auto simp: valid_connection_def)
  then show "\<exists>b'. System c = Some b' \<and> destroy c w = TEventSystem_Unsubscribe b' (ConnId c) w"
    by (simp add: destroy_is_Unsubscribe)
next
  assume a: "find (\<lambda>f. FrameSystem f = b \<and> EventTypeIndex f = E) (rev (DispatchStack w)) = Some f \<and>
    id_unused w b E \<and> refs_valid (dispatcher_of w b E) \<and>
    run (cb (FrameEvent f))
      (observe (Call ByInvokeSingle (length (DispatchStack w)) b E
                  (length (pool (dispatcher_of w b E))) (FrameEvent f))
         (claimed b E (length (pool (dispatcher_of w b E)))
            (new_slot (NextId (buses w b)) p cb os)
            (register_handler b E p cb os w))) = Some (Returned, w2) \<and>
    buses w2 =
      buses (claimed b E (length (pool (dispatcher_of w b E)))
               (new_slot (NextId (buses w b)) p cb os) (register_handler b E p cb os w))"
  from a have fr: "find (\<lambda>f. FrameSystem f = b \<and> EventTypeIndex f = E)
      (rev (DispatchStack w)) = Some f"
    and un: "id_unused w b E" and rv: "refs_valid (dispatcher_of w b E)"
    and cb: "run (cb (FrameEvent f))
      (observe (Call ByInvokeSingle (length (DispatchStack w)) b E
                  (length (pool (dispatcher_of w b E))) (FrameEvent f))
         (claimed b E (length (pool (dispatcher_of w b E)))
            (new_slot (NextId (buses w b)) p cb os)
            (register_handler b E p cb os w))) = Some (Returned, w2)"
    and same: "buses w2 =
      buses (claimed b E (length (pool (dispatcher_of w b E)))
               (new_slot (NextId (buses w b)) p cb os) (register_handler b E p cb os w))"
    by blast+
  from fr un rv cb same have r:
    "TEventSystem_SubscribeImpl run b E p cb os w =
        Some (Returned, NextId (buses w b), if os then TDispatcher_Cleanup b E w2 else w2) \<and>
      (\<forall>b' E'. TEventSystem_GetHandlerCount b' E'
           (TEventSystem_Unsubscribe b (NextId (buses w b))
              (if os then TDispatcher_Cleanup b E w2 else w2)) =
         TEventSystem_GetHandlerCount b' E' w)"
    by (rule SubscribeImpl_round_trip_in_flight)
  from r show "TEventSystem_SubscribeImpl run b E p cb os w =
        Some (Returned, NextId (buses w b), if os then TDispatcher_Cleanup b E w2 else w2)"
    by (rule conjunct1)
  fix b' E'
  from r show "TEventSystem_GetHandlerCount b' E'
           (TEventSystem_Unsubscribe b (NextId (buses w b))
              (if os then TDispatcher_Cleanup b E w2 else w2)) =
         TEventSystem_GetHandlerCount b' E' w"
    by blast
qed (use subscribe_unsubscribe_count Unsubscribe_twice Disconnect_twice in blast)+


lemma in_flight_simps:
  "dispatcher_of in_flight 0 7 =
     \<lparr>Slots = [0],
      pool = [\<lparr>SlotId = 1, Priority = Normal, CallbackV = (\<lambda>ev. Done), IsOneShot = False,
               Active = True\<rparr>]\<rparr>"
  "DispatchStack in_flight = [\<lparr>FrameSystem = 0, EventTypeIndex = 7, FrameEvent = 5\<rparr>]"
  "NextId (buses in_flight 0) = 2"
  "HandlerTypes (buses in_flight 0) 2 = None"
  by (simp_all add: in_flight_def one_registered_def run_simps)

theorem subscribe_unsubscribe_round_trip_witness:
  "\<exists>w2. no_frame init_world 0 7 \<and> id_unused init_world 0 7 \<and>
   refs_valid (dispatcher_of init_world 0 7) \<and>
   TEventSystem_SubscribeImpl (exec 1) 0 7 Normal (\<lambda>ev. Done) False init_world =
     Some (Returned, 1, one_registered) \<and>
   TEventSystem_GetHandlerCount 0 7 init_world = 0 \<and>
   TEventSystem_GetHandlerCount 0 7 one_registered = 1 \<and>
   TEventSystem_GetHandlerCount 0 7 (TEventSystem_Unsubscribe 0 1 one_registered) = 0 \<and>
   valid_connection (TScopedConnection_new 0 1) \<and> ConnId (TScopedConnection_new 0 1) \<noteq> 0 \<and>
   destroy (TScopedConnection_new 0 1) one_registered = TEventSystem_Unsubscribe 0 1 one_registered \<and>
   find (\<lambda>f. FrameSystem f = 0 \<and> EventTypeIndex f = 7) (rev (DispatchStack in_flight)) =
     Some \<lparr>FrameSystem = 0, EventTypeIndex = 7, FrameEvent = 5\<rparr> \<and>
   id_unused in_flight 0 7 \<and> refs_valid (dispatcher_of in_flight 0 7) \<and>
   TEventSystem_GetHandlerCount 0 7 in_flight = 1 \<and>
   TEventSystem_SubscribeImpl (exec 2) 0 7 Normal recorder False in_flight =
     Some (Returned, 2, w2) \<and>
   mem w2 0 = 5 \<and>
   TEventSystem_GetHandlerCount 0 7 w2 = 2 \<and>
   TEventSystem_GetHandlerCount 0 7 (TEventSystem_Unsubscribe 0 2 w2) = 1"
proof -
  have h: "no_frame init_world 0 7" "id_unused init_world 0 7"
    "refs_valid (dispatcher_of init_world 0 7)"
    by (simp_all add: no_frame_def id_unused_def refs_valid_def)
  have c: "valid_connection (TScopedConnection_new 0 1)" "ConnId (TScopedConnection_new 0 1) \<noteq> 0"
    "System (TScopedConnection_new 0 1) = Some 0"
    by (simp_all add: valid_connection_def TScopedConnection_new_def)
  have n: "TEventSystem_GetHandlerCount 0 7 init_world = 0"
    by (simp add: GetHandlerCount_eq TDispatcher_Count_def)
  note t1 = subscribe_unsubscribe_round_trip
    [where w = init_world and b = 0 and E = 7 and run = "exec 1" and p = Normal
      and cb = "\<lambda>ev. Done" and os = False, THEN conjunct1]
  note t2 = subscribe_unsubscribe_round_trip
    [where w = one_registered and c = "TScopedConnection_new 0 1",
      THEN conjunct2, THEN conjunct2, THEN conjunct1]
  from t1 h have
    a: "TEventSystem_SubscribeImpl (exec 1) 0 7 Normal (\<lambda>ev. Done) False init_world =
          Some (Returned, NextId (buses init_world 0), one_registered)"
    "TEventSystem_GetHandlerCount 0 7 one_registered =
       Suc (TEventSystem_GetHandlerCount 0 7 init_world)"
    "TEventSystem_GetHandlerCount 0 7
       (TEventSystem_Unsubscribe 0 (NextId (buses init_world 0)) one_registered) =
     TEventSystem_GetHandlerCount 0 7 init_world"
    unfolding one_registered_def by blast+
  from t2 c(1,2) obtain b' where
    "System (TScopedConnection_new 0 1) = Some b'"
    "destroy (TScopedConnection_new 0 1) one_registered =
       TEventSystem_Unsubscribe b' (ConnId (TScopedConnection_new 0 1)) one_registered"
    by blast
  with c(3) have
    d: "destroy (TScopedConnection_new 0 1) one_registered =
       TEventSystem_Unsubscribe 0 1 one_registered"
    by (simp add: TScopedConnection_new_def)
  from a n have
    o: "TEventSystem_SubscribeImpl (exec 1) 0 7 Normal (\<lambda>ev. Done) False init_world =
       Some (Returned, 1, one_registered)"
    "TEventSystem_GetHandlerCount 0 7 one_registered = 1"
    "TEventSystem_GetHandlerCount 0 7 (TEventSystem_Unsubscribe 0 1 one_registered) = 0"
    by simp_all
  let ?f = "\<lparr>FrameSystem = 0, EventTypeIndex = 7, FrameEvent = 5\<rparr>"
  let ?w0 = "claimed 0 7 (length (pool (dispatcher_of in_flight 0 7)))
               (new_slot (NextId (buses in_flight 0)) Normal recorder False)
               (register_handler 0 7 Normal recorder False in_flight)"
  have g: "find (\<lambda>f. FrameSystem f = 0 \<and> EventTypeIndex f = 7) (rev (DispatchStack in_flight)) =
      Some ?f"
    "id_unused in_flight 0 7" "refs_valid (dispatcher_of in_flight 0 7)"
    by (simp_all add: in_flight_simps id_unused_def refs_valid_def has_id_def deref_def)
  have k: "TEventSystem_GetHandlerCount 0 7 in_flight = 1"
    by (simp add: GetHandlerCount_eq TDispatcher_Count_def in_flight_simps is_active_def
        deref_def)
  have "\<exists>w2. exec 2 (recorder (FrameEvent ?f))
        (observe (Call ByInvokeSingle (length (DispatchStack in_flight)) 0 7
                    (length (pool (dispatcher_of in_flight 0 7))) (FrameEvent ?f)) ?w0) =
        Some (Returned, w2) \<and>
      buses w2 = buses ?w0 \<and> mem w2 0 = 5 \<and>
      TEventSystem_GetHandlerCount 0 7 w2 = 2"
    by (simp add: recorder_def run_simps claimed_def new_slot_def in_flight_simps)
  then obtain w2 where
    e: "exec 2 (recorder (FrameEvent ?f))
        (observe (Call ByInvokeSingle (length (DispatchStack in_flight)) 0 7
                    (length (pool (dispatcher_of in_flight 0 7))) (FrameEvent ?f)) ?w0) =
        Some (Returned, w2)"
    and s: "buses w2 = buses ?w0"
    and m: "mem w2 0 = 5" "TEventSystem_GetHandlerCount 0 7 w2 = 2"
    by blast
  have hyp: "find (\<lambda>f. FrameSystem f = 0 \<and> EventTypeIndex f = 7) (rev (DispatchStack in_flight)) =
      Some ?f \<and>
    id_unused in_flight 0 7 \<and> refs_valid (dispatcher_of in_flight 0 7) \<and>
    exec 2 (recorder (FrameEvent ?f))
      (observe (Call ByInvokeSingle (length (DispatchStack in_flight)) 0 7
                  (length (pool (dispatcher_of in_flight 0 7))) (FrameEvent ?f)) ?w0) =
      Some (Returned, w2) \<and>
    buses w2 = buses ?w0"
    by (intro conjI g e s)
  note t3 = subscribe_unsubscribe_round_trip
    [where w = in_flight and b = 0 and E = 7 and run = "exec 2" and p = Normal
      and cb = recorder and os = False and f = ?f and ?w2.0 = w2,
      THEN conjunct2, THEN conjunct1]
  from t3 hyp have res:
    "TEventSystem_SubscribeImpl (exec 2) 0 7 Normal recorder False in_flight =
       Some (Returned, NextId (buses in_flight 0), if False then TDispatcher_Cleanup 0 7 w2 else w2) \<and>
     (\<forall>b' E'. TEventSystem_GetHandlerCount b' E'
          (TEventSystem_Unsubscribe 0 (NextId (buses in_flight 0))
             (if False then TDispatcher_Cleanup 0 7 w2 else w2)) =
        TEventSystem_GetHandlerCount b' E' in_flight)"
    by (rule mp)
  from res have
    q: "TEventSystem_SubscribeImpl (exec 2) 0 7 Normal recorder False in_flight =
      Some (Returned, 2, w2)"
    by (simp only: in_flight_simps(3) if_False)
  from res have "TEventSystem_GetHandlerCount 0 7
          (TEventSystem_Unsubscribe 0 (NextId (buses in_flight 0))
             (if False then TDispatcher_Cleanup 0 7 w2 else w2)) =
        TEventSystem_GetHandlerCount 0 7 in_flight"
    by blast
  then have
    u: "TEventSystem_GetHandlerCount 0 7 (TEventSystem_Unsubscribe 0 2 w2) = 1"
    by (simp only: in_flight_simps(3) if_False k)
  show ?thesis
    by (intro exI [of _ w2] conjI h o n c(1,2) d g k q m u)
qed

text \<open>
  C7 as it is written fails inside a delivery. The handler of \<open>round_trip_in_flight\<close> finds
  one handler for its event type, subscribes a handler whose callback subscribes another
  one, unsubscribes it by the identifier returned, and finds two handlers.
\<close>

theorem round_trip_in_flight_counterexample:
  "map_option (\<lambda>(out, w). (out, mem w 0, mem w 1))
     (exec 9 (round_trip_in_flight (\<lambda>ev. Subscribe 0 7 Low (\<lambda>ev. Done) (\<lambda>j. Done)))
        init_world) =
   Some (Returned, 1, 2)"
  by (simp add: round_trip_in_flight_def run_simps)


section \<open>One-shot handlers on the earlier bus\<close>

lemma exec_earlier_numeral:
  "exec_earlier (numeral k) = exec_body_earlier (exec_earlier (pred_numeral k))"
  by (simp add: numeral_eq_Suc)

lemmas earlier_simps =
  exec_earlier_numeral EventSystem_dispatch_def Dispatcher_dispatch_def
  Dispatcher_invokeSingle_def EventSystem_notifyCurrentDispatch_def
  EventSystem_subscribe_def EventSystem_subscribeOnce_def

text \<open>
  C1 does not hold of the earlier dispatcher. \<^verbatim>\<open>Dispatcher::dispatch\<close> clears the flag of
  a one-shot slot after its callback has returned, so a publish of the same event type
  from inside the callback finds the slot active and invokes it again: run on the earlier
  bus, \<open>counting_one_shot\<close> invokes its one-shot handler four times, once at each level of
  nesting. Run on the bus with the compare-and-set, the same client code invokes it once.
\<close>

theorem one_shot_invoked_again_by_earlier_dispatch:
  "map_option (\<lambda>(out, w). (out, calls w 0 7 0, mem w 0))
     (exec_earlier 11 counting_one_shot init_world) = Some (Returned, 4, 4) \<and>
   map_option (\<lambda>(out, w). (out, calls w 0 7 0, mem w 0))
     (exec 11 counting_one_shot init_world) = Some (Returned, 1, 1)"
  by (simp add: counting_one_shot_def earlier_simps run_simps calls_def)

text \<open>
  C2 does not hold of the earlier dispatcher. \<^verbatim>\<open>Dispatcher::dispatch\<close> has no handler for
  the exception and clears the flag after the callback, so the exception leaves it with
  the one-shot slot active and in the slot list: run on the earlier bus,
  \<open>throwing_one_shot\<close> has the second publish invoke the one-shot handler again and throw
  again (cells 0, 2 and 3), the Low handler is never reached (cell 1), and two handlers
  remain. Run on the bus with the compare-and-set, the one-shot handler is invoked once,
  the second publish returns and reaches the Low handler, which alone remains.
\<close>

theorem throwing_one_shot_fires_again_in_earlier_dispatch:
  "map_option (\<lambda>(out, w). (out, mem w 0, mem w 1, mem w 2, mem w 3,
                  TEventSystem_GetHandlerCount 0 7 w))
     (exec_earlier 7 throwing_one_shot init_world) = Some (Returned, 2, 0, 1, 1, 2) \<and>
   map_option (\<lambda>(out, w). (out, mem w 0, mem w 1, mem w 2, mem w 3,
                  TEventSystem_GetHandlerCount 0 7 w))
     (exec 7 throwing_one_shot init_world) = Some (Returned, 1, 1, 1, 0, 1)"
  by (simp add: throwing_one_shot_def publish_twice_def earlier_simps run_simps)


end
